theory Spec2Isabelle
  imports
    Main
    "HOL-Library.Word"
    "HOL-Library.FSet"
    "HOL-Library.Signed_Division"
    "HOL-Library.Char_ord"
    "HOL-Library.List_Lexorder"
begin

section \<open>The scalable broadcast engine (package scalable)\<close>

text \<open>
  The engine is the Go type \<open>Process\<close> with its methods. The embedding is a state
  passing one: every method takes the process and returns the updated process together
  with the list of effects it performed (requests handed to the actor context and lines
  printed), or a runtime panic.

  Conventions of the embedding.
  \<^item> An actor handle (\<open>*actor.PID\<close>) is identified with the string that
    \<open>utils.PidToString\<close> gives for it; \<open>nil\<close> handles appear as \<open>None\<close>.
  \<^item> \<open>int64\<close> and \<open>protocols.ValueType\<close> are \<open>64 word\<close>; the counters of type
    \<open>int\<close> are \<open>64 word\<close> read with \<open>sint\<close>, so \<open>++\<close> wraps as on a 64-bit target.
    The configuration constants are only read and compared, they are \<open>int\<close>.
  \<^item> A Go \<open>map[K]bool\<close> of the engine only ever stores \<open>true\<close>, so its set of keys is
    the set of keys mapped to \<open>true\<close>: it is a finite set. \<open>len\<close> is \<open>fcard\<close>,
    \<open>m[k] = true\<close> is \<open>finsert\<close>, \<open>m[k]\<close> is membership.
  \<^item> A \<open>map[ValueType]int\<close> is only read and incremented by key: it is a total function
    with the zero value \<open>0\<close> for an absent key.
  \<^item> A map of maps can hold a \<open>nil\<close> inner map for an absent outer key: reading it gives
    the zero value, writing it panics. These are \<open>\<rightharpoonup>\<close> maps into the inner structure.
  \<^item> Go ranges over a map in an unspecified order; the embedding ranges in increasing
    order of the keys. No statement below depends on the order chosen.
  \<^item> The pseudo-random sources are seeded from the clock at each call. The values they
    return are inputs of the embedding: the Poisson draw, and for every sampler the
    successive values of \<open>random.Int()\<close> (never negative). A sampler that asks for more
    values than were supplied returns \<open>OutOfDraws\<close>: for the gossip sampler, whose loop
    has no bound, this stands for a loop that has not finished on the supplied prefix.
\<close>

subsection \<open>Messages\<close>

type_synonym pid = string
type_synonym valueType = "64 word"

record messageData =
  Author :: pid
  SeqNumber :: "64 word"
  Value :: "64 word"

datatype stage = GOSSIP_SUBSCRIBE | GOSSIP | ECHO_SUBSCRIBE | ECHO | READY_SUBSCRIBE | READY

record scalableProtocolMessage =
  Stage :: stage
  MessageData :: messageData

text \<open>What the actor context hands to \<open>Receive\<close>; any other message type falls through
  the type switch.\<close>

datatype message =
    Broadcast_msg "64 word"
  | Protocol_msg scalableProtocolMessage
  | Other_msg

subsection \<open>Effects and panics\<close>

datatype event =
    Request "pid option" scalableProtocolMessage pid
      \<comment> \<open>\<open>context.RequestWithCustomSender(target, msg, sender)\<close>\<close>
  | Printf_attack pid
      \<comment> \<open>"%s: Detected a duplicated seq number attack"\<close>
  | Printf_accepted pid "64 word" "64 word" pid
      \<comment> \<open>"%s: Accepted transaction with seq number %d and value %d from %s"\<close>

datatype error =
    DivideByZero      \<comment> \<open>integer divide by zero\<close>
  | IndexOutOfRange   \<comment> \<open>index out of range\<close>
  | NilMapWrite       \<comment> \<open>assignment to entry in nil map\<close>
  | OutOfDraws        \<comment> \<open>the supplied random values are used up\<close>

subsection \<open>Configuration (package config, read only)\<close>

record config =
  ProcessCount :: int
  GossipSampleSize :: int
  EchoSampleSize :: int
  EchoThreshold :: int
  ReadySampleSize :: int
  ReadyThreshold :: int
  DeliverySampleSize :: int
  DeliveryThreshold :: int

record randomness =
  poissonDraw :: int        \<comment> \<open>\<open>int(poisson.Rand())\<close>\<close>
  gossipDraws :: "nat list" \<comment> \<open>values of \<open>uniform.Int()\<close> in \<open>generateGossipSample\<close>\<close>
  echoDraws :: "nat list"   \<comment> \<open>values of \<open>random.Int()\<close> in the three calls of \<open>sample\<close>\<close>
  readyDraws :: "nat list"
  deliveryDraws :: "nat list"

subsection \<open>State\<close>

record messageState =
  receivedEcho :: "pid fset"
  receivedReady :: "pid \<rightharpoonup> valueType fset"
  echoMessagesStat :: "valueType \<Rightarrow> 64 word"
  readySampleStat :: "valueType \<Rightarrow> 64 word"
  deliverySampleStat :: "valueType \<Rightarrow> 64 word"
  readyMessagesSent :: "valueType fset"
  gossipSample :: "pid fset"
  echoSample :: "pid fset"
  readySample :: "pid fset"
  deliverySample :: "pid fset"
  echoSubscriptionSet :: "pid fset"
  readySubscriptionSet :: "pid fset"
  gossipMessage :: "scalableProtocolMessage option"
  echoMessage :: "scalableProtocolMessage option"
  sentReadyFromSieve :: bool

definition newMessageState :: messageState where
  "newMessageState =
     \<lparr> receivedEcho = {||}, receivedReady = Map.empty,
       echoMessagesStat = (\<lambda>_. 0), readySampleStat = (\<lambda>_. 0), deliverySampleStat = (\<lambda>_. 0),
       readyMessagesSent = {||},
       gossipSample = {||}, echoSample = {||}, readySample = {||}, deliverySample = {||},
       echoSubscriptionSet = {||}, readySubscriptionSet = {||},
       gossipMessage = None, echoMessage = None,
       sentReadyFromSieve = False \<rparr>"

record process =
  actorPid :: pid
  pid :: pid
  actorPids :: "pid \<rightharpoonup> pid"
  pids :: "pid list"
  msgCounter :: "64 word"
  deliveredMessages :: "pid \<rightharpoonup> (64 word \<rightharpoonup> valueType)"
  messagesLog :: "pid \<rightharpoonup> (64 word \<rightharpoonup> messageState)"

text \<open>\<open>p.messagesLog[author][seq]\<close>, read: \<open>nil\<close> when either key is absent.\<close>

definition lookupState :: "process \<Rightarrow> messageData \<Rightarrow> messageState option" where
  "lookupState p md =
     (case messagesLog p (Author md) of
        None \<Rightarrow> None
      | Some inner \<Rightarrow> inner (SeqNumber md))"

text \<open>\<open>msgState\<close> is a pointer into \<open>messagesLog\<close>: a handler that has changed the state
  it points to has changed the log entry. \<open>storeState\<close> writes the changed state back.\<close>

definition storeState :: "process \<Rightarrow> messageData \<Rightarrow> messageState \<Rightarrow> process" where
  "storeState p md ms =
     (case messagesLog p (Author md) of
        None \<Rightarrow> p
      | Some inner \<Rightarrow>
          p\<lparr>messagesLog := (messagesLog p)(Author md \<mapsto> inner(SeqNumber md \<mapsto> ms))\<rparr>)"

subsection \<open>Sampler\<close>

text \<open>\<open>p.pids[random.Int() % config.ProcessCount]\<close>: Go's \<open>%\<close> truncates (\<open>smod\<close>), panics
  on a zero divisor, and the index expression panics out of range.\<close>

definition getRandomPid :: "process \<Rightarrow> config \<Rightarrow> nat \<Rightarrow> error + pid" where
  "getRandomPid p cfg r =
     (if ProcessCount cfg = 0 then Inl DivideByZero
      else let i = int r smod ProcessCount cfg
           in if 0 \<le> i \<and> i < int (length (pids p)) then Inr (pids p ! nat i)
              else Inl IndexOutOfRange)"

text \<open>\<open>for len(sample) < gSize { sample[p.getRandomPid(uniform)] = true }\<close>\<close>

fun gossipLoop :: "process \<Rightarrow> config \<Rightarrow> int \<Rightarrow> nat list \<Rightarrow> pid fset \<Rightarrow> error + pid fset" where
  "gossipLoop p cfg gSize [] sample =
     (if int (fcard sample) < gSize then Inl OutOfDraws else Inr sample)"
| "gossipLoop p cfg gSize (r # rs) sample =
     (if int (fcard sample) < gSize
      then (case getRandomPid p cfg r of
              Inl e \<Rightarrow> Inl e
            | Inr x \<Rightarrow> gossipLoop p cfg gSize rs (finsert x sample))
      else Inr sample)"

definition generateGossipSample :: "process \<Rightarrow> config \<Rightarrow> int \<Rightarrow> nat list \<Rightarrow> error + pid fset" where
  "generateGossipSample p cfg poisson draws =
     (let gSize = (if poisson > ProcessCount cfg then ProcessCount cfg else poisson)
      in gossipLoop p cfg gSize draws {||})"

text \<open>\<open>for i := 0; i < size; i++ { sample[p.getRandomPid(random)] = true }\<close>; the first
  argument is the number of iterations left.\<close>

fun sampleLoop :: "process \<Rightarrow> config \<Rightarrow> nat \<Rightarrow> nat list \<Rightarrow> pid fset \<Rightarrow> error + pid fset" where
  "sampleLoop p cfg 0 rs sample = Inr sample"
| "sampleLoop p cfg (Suc n) [] sample = Inl OutOfDraws"
| "sampleLoop p cfg (Suc n) (r # rs) sample =
     (case getRandomPid p cfg r of
        Inl e \<Rightarrow> Inl e
      | Inr x \<Rightarrow> sampleLoop p cfg n rs (finsert x sample))"

subsection \<open>Broadcast primitives\<close>

definition broadcastToSet :: "process \<Rightarrow> pid fset \<Rightarrow> scalableProtocolMessage \<Rightarrow> event list" where
  "broadcastToSet p set' msg =
     map (\<lambda>x. Request (actorPids p x) msg (actorPid p)) (sorted_list_of_fset set')"

definition sample ::
  "process \<Rightarrow> config \<Rightarrow> stage \<Rightarrow> messageData \<Rightarrow> int \<Rightarrow> nat list \<Rightarrow> error + (pid fset \<times> event list)"
where
  "sample p cfg stg msgData size' draws =
     (case sampleLoop p cfg (nat size') draws {||} of
        Inl e \<Rightarrow> Inl e
      | Inr s \<Rightarrow> Inr (s, broadcastToSet p s \<lparr>Stage = stg, MessageData = msgData\<rparr>))"

definition broadcastGossip ::
  "process \<Rightarrow> messageState \<Rightarrow> messageData \<Rightarrow> messageState \<times> event list"
where
  "broadcastGossip p msgState msgData =
     (let m = \<lparr>Stage = GOSSIP, MessageData = msgData\<rparr>
      in (msgState\<lparr>gossipMessage := Some m\<rparr>, broadcastToSet p (gossipSample msgState) m))"

definition broadcastReady :: "process \<Rightarrow> messageState \<Rightarrow> messageData \<Rightarrow> event list" where
  "broadcastReady p msgState msgData =
     broadcastToSet p (readySubscriptionSet msgState) \<lparr>Stage = READY, MessageData = msgData\<rparr>"

subsection \<open>Initialisation\<close>

definition InitProcess :: "pid \<Rightarrow> pid list \<Rightarrow> process" where
  "InitProcess self actors =
     \<lparr> actorPid = self, pid = self,
       actorPids = fold (\<lambda>x m. m(x \<mapsto> x)) actors Map.empty,
       pids = actors,
       msgCounter = 0,
       deliveredMessages = fold (\<lambda>x m. m(x \<mapsto> Map.empty)) actors Map.empty,
       messagesLog = fold (\<lambda>x m. m(x \<mapsto> Map.empty)) actors Map.empty \<rparr>"

definition initMessageState ::
  "process \<Rightarrow> config \<Rightarrow> randomness \<Rightarrow> messageData \<Rightarrow>
     error + (process \<times> messageState \<times> event list)"
where
  "initMessageState p cfg rnd msgData =
     (case lookupState p msgData of
        Some msgState \<Rightarrow> Inr (p, msgState, [])
      | None \<Rightarrow>
         (case generateGossipSample p cfg (poissonDraw rnd) (gossipDraws rnd) of
            Inl e \<Rightarrow> Inl e
          | Inr g \<Rightarrow>
         (case sample p cfg ECHO_SUBSCRIBE msgData (EchoSampleSize cfg) (echoDraws rnd) of
            Inl e \<Rightarrow> Inl e
          | Inr (es, ev2) \<Rightarrow>
         (case sample p cfg READY_SUBSCRIBE msgData (ReadySampleSize cfg) (readyDraws rnd) of
            Inl e \<Rightarrow> Inl e
          | Inr (rs, ev3) \<Rightarrow>
         (case sample p cfg READY_SUBSCRIBE msgData (DeliverySampleSize cfg) (deliveryDraws rnd) of
            Inl e \<Rightarrow> Inl e
          | Inr (ds, ev4) \<Rightarrow>
         (case messagesLog p (Author msgData) of
            None \<Rightarrow> Inl NilMapWrite
          | Some inner \<Rightarrow>
              (let msgState = newMessageState
                     \<lparr> receivedReady := fold (\<lambda>x m. m(x \<mapsto> {||})) (pids p) Map.empty,
                       gossipSample := g, echoSample := es,
                       readySample := rs, deliverySample := ds \<rparr>;
                   ev1 = broadcastToSet p g \<lparr>Stage = GOSSIP_SUBSCRIBE, MessageData = msgData\<rparr>
               in Inr (p\<lparr>messagesLog :=
                           (messagesLog p)(Author msgData \<mapsto> inner(SeqNumber msgData \<mapsto> msgState))\<rparr>,
                       msgState, ev1 @ ev2 @ ev3 @ ev4))))))))"

subsection \<open>Delivery\<close>

definition delivered :: "process \<Rightarrow> messageData \<Rightarrow> bool \<times> event list" where
  "delivered p msgData =
     (case (case deliveredMessages p (Author msgData) of
              None \<Rightarrow> None
            | Some inner \<Rightarrow> inner (SeqNumber msgData)) of
        None \<Rightarrow> (False, [])
      | Some deliveredValue \<Rightarrow>
          (True, if deliveredValue \<noteq> Value msgData then [Printf_attack (pid p)] else []))"

definition deliver :: "process \<Rightarrow> messageData \<Rightarrow> error + (process \<times> event list)" where
  "deliver p msgData =
     (case deliveredMessages p (Author msgData) of
        None \<Rightarrow> Inl NilMapWrite
      | Some inner \<Rightarrow>
          Inr (p\<lparr>deliveredMessages :=
                   (deliveredMessages p)(Author msgData \<mapsto> inner(SeqNumber msgData \<mapsto> Value msgData))\<rparr>,
               [Printf_accepted (pid p) (SeqNumber msgData) (Value msgData) (Author msgData)]))"

subsection \<open>Stage machine\<close>

definition maybeSendReadyFromSieve ::
  "process \<Rightarrow> config \<Rightarrow> messageState \<Rightarrow> messageData \<Rightarrow> messageState \<times> event list"
where
  "maybeSendReadyFromSieve p cfg msgState msgData =
     (let value = Value msgData
      in if \<not> sentReadyFromSieve msgState \<and>
            (case echoMessage msgState of
               None \<Rightarrow> False
             | Some em \<Rightarrow>
                 value = Value (MessageData em) \<and>
                 EchoThreshold cfg \<le> sint (echoMessagesStat msgState value))
         then (let ms1 = msgState\<lparr>readyMessagesSent := finsert value (readyMessagesSent msgState)\<rparr>
               in (ms1\<lparr>sentReadyFromSieve := True\<rparr>, broadcastReady p ms1 msgData))
         else (msgState, []))"

text \<open>The cases of the switch on \<open>msg.Stage\<close> in \<open>Receive\<close>, one definition each. They
  take the state \<open>initMessageState\<close> returned and give the state as the case leaves it.\<close>

definition Receive_GOSSIP_SUBSCRIBE ::
  "process \<Rightarrow> messageState \<Rightarrow> pid \<Rightarrow> messageState \<times> event list"
where
  "Receive_GOSSIP_SUBSCRIBE p msgState sender =
     (if sender |\<in>| gossipSample msgState then (msgState, [])
      else (msgState\<lparr>gossipSample := finsert sender (gossipSample msgState)\<rparr>,
            (case gossipMessage msgState of
               None \<Rightarrow> []
             | Some m \<Rightarrow> [Request (Some sender) m (actorPid p)])))"

definition Receive_GOSSIP ::
  "process \<Rightarrow> config \<Rightarrow> messageState \<Rightarrow> messageData \<Rightarrow> messageState \<times> event list"
where
  "Receive_GOSSIP p cfg msgState msgData =
     (if gossipMessage msgState = None
      then (let (ms1, ev1) = broadcastGossip p msgState msgData;
                em = \<lparr>Stage = ECHO, MessageData = msgData\<rparr>;
                ms2 = ms1\<lparr>echoMessage := Some em\<rparr>;
                ev2 = broadcastToSet p (echoSubscriptionSet ms2) em;
                (ms3, ev3) = maybeSendReadyFromSieve p cfg ms2 msgData
            in (ms3, ev1 @ ev2 @ ev3))
      else (msgState, []))"

definition Receive_ECHO_SUBSCRIBE ::
  "process \<Rightarrow> messageState \<Rightarrow> pid \<Rightarrow> messageState \<times> event list"
where
  "Receive_ECHO_SUBSCRIBE p msgState sender =
     (if sender |\<in>| echoSubscriptionSet msgState then (msgState, [])
      else (msgState\<lparr>echoSubscriptionSet := finsert sender (echoSubscriptionSet msgState)\<rparr>,
            (case echoMessage msgState of
               None \<Rightarrow> []
             | Some m \<Rightarrow> [Request (Some sender) m (actorPid p)])))"

definition Receive_ECHO ::
  "process \<Rightarrow> config \<Rightarrow> messageState \<Rightarrow> pid \<Rightarrow> messageData \<Rightarrow> messageState \<times> event list"
where
  "Receive_ECHO p cfg msgState sender msgData =
     (if sender |\<notin>| echoSample msgState \<or> sender |\<in>| receivedEcho msgState
      then (msgState, [])
      else (let value = Value msgData;
                ms1 = msgState\<lparr>receivedEcho := finsert sender (receivedEcho msgState)\<rparr>;
                ms2 = ms1\<lparr>echoMessagesStat :=
                            (echoMessagesStat ms1)(value := echoMessagesStat ms1 value + 1)\<rparr>
            in maybeSendReadyFromSieve p cfg ms2 msgData))"

definition Receive_READY_SUBSCRIBE ::
  "process \<Rightarrow> messageState \<Rightarrow> pid \<Rightarrow> messageData \<Rightarrow> messageState \<times> event list"
where
  "Receive_READY_SUBSCRIBE p msgState sender msgData =
     (if sender |\<in>| readySubscriptionSet msgState then (msgState, [])
      else (msgState\<lparr>readySubscriptionSet := finsert sender (readySubscriptionSet msgState)\<rparr>,
            map (\<lambda>val. Request (Some sender)
                         \<lparr>Stage = READY,
                          MessageData = \<lparr>Author = Author msgData,
                                         SeqNumber = SeqNumber msgData,
                                         Value = val\<rparr>\<rparr>
                         (actorPid p))
                (sorted_list_of_fset (readyMessagesSent msgState))))"

text \<open>The first half of the READY case: the ready sample and amplification.\<close>

definition Receive_READY_amplify ::
  "process \<Rightarrow> config \<Rightarrow> messageState \<Rightarrow> pid \<Rightarrow> messageData \<Rightarrow> messageState \<times> event list"
where
  "Receive_READY_amplify p cfg msgState sender msgData =
     (let value = Value msgData
      in if sender |\<in>| readySample msgState
         then (let ms1 = msgState\<lparr>readySampleStat :=
                            (readySampleStat msgState)(value := readySampleStat msgState value + 1)\<rparr>
               in if ReadyThreshold cfg \<le> sint (readySampleStat ms1 value)
                  then (let ms2 = ms1\<lparr>readyMessagesSent := finsert value (readyMessagesSent ms1)\<rparr>
                        in (ms2, broadcastReady p ms2 msgData))
                  else (ms1, []))
         else (msgState, []))"

text \<open>The second half: the delivery sample and delivery.\<close>

definition Receive_READY_deliver ::
  "process \<Rightarrow> config \<Rightarrow> messageState \<Rightarrow> pid \<Rightarrow> messageData \<Rightarrow>
     error + (process \<times> messageState \<times> event list)"
where
  "Receive_READY_deliver p cfg msgState sender msgData =
     (let value = Value msgData
      in if sender |\<in>| deliverySample msgState
         then (let ms1 = msgState\<lparr>deliverySampleStat :=
                            (deliverySampleStat msgState)(value := deliverySampleStat msgState value + 1)\<rparr>;
                   (d, evd) = delivered p msgData
               in if \<not> d \<and> DeliveryThreshold cfg \<le> sint (deliverySampleStat ms1 value)
                  then (case deliver p msgData of
                          Inl e \<Rightarrow> Inl e
                        | Inr (p', eva) \<Rightarrow> Inr (p', ms1, evd @ eva))
                  else Inr (p, ms1, evd))
         else Inr (p, msgState, []))"

definition Receive_READY ::
  "process \<Rightarrow> config \<Rightarrow> messageState \<Rightarrow> pid \<Rightarrow> messageData \<Rightarrow>
     error + (process \<times> messageState \<times> event list)"
where
  "Receive_READY p cfg msgState sender msgData =
     (let value = Value msgData
      in case receivedReady msgState sender of
           None \<Rightarrow> Inl NilMapWrite
         | Some vs \<Rightarrow>
             if value |\<in>| vs then Inr (p, msgState, [])
             else (let ms1 = msgState\<lparr>receivedReady :=
                                (receivedReady msgState)(sender \<mapsto> finsert value vs)\<rparr>;
                       (ms2, ev1) = Receive_READY_amplify p cfg ms1 sender msgData
                   in case Receive_READY_deliver p cfg ms2 sender msgData of
                        Inl e \<Rightarrow> Inl e
                      | Inr (p', ms3, ev2) \<Rightarrow> Inr (p', ms3, ev1 @ ev2)))"

text \<open>The switch on \<open>msg.Stage\<close>.\<close>

definition Receive_stage ::
  "process \<Rightarrow> config \<Rightarrow> messageState \<Rightarrow> pid \<Rightarrow> scalableProtocolMessage \<Rightarrow>
     error + (process \<times> messageState \<times> event list)"
where
  "Receive_stage p cfg msgState sender msg =
     (let msgData = MessageData msg
      in case Stage msg of
           GOSSIP_SUBSCRIBE \<Rightarrow>
             (let (ms', ev) = Receive_GOSSIP_SUBSCRIBE p msgState sender in Inr (p, ms', ev))
         | GOSSIP \<Rightarrow>
             (let (ms', ev) = Receive_GOSSIP p cfg msgState msgData in Inr (p, ms', ev))
         | ECHO_SUBSCRIBE \<Rightarrow>
             (let (ms', ev) = Receive_ECHO_SUBSCRIBE p msgState sender in Inr (p, ms', ev))
         | ECHO \<Rightarrow>
             (let (ms', ev) = Receive_ECHO p cfg msgState sender msgData in Inr (p, ms', ev))
         | READY_SUBSCRIBE \<Rightarrow>
             (let (ms', ev) = Receive_READY_SUBSCRIBE p msgState sender msgData
              in Inr (p, ms', ev))
         | READY \<Rightarrow> Receive_READY p cfg msgState sender msgData)"

definition Broadcast ::
  "process \<Rightarrow> config \<Rightarrow> randomness \<Rightarrow> 64 word \<Rightarrow> error + (process \<times> event list)"
where
  "Broadcast p cfg rnd value =
     (let msgData = \<lparr>Author = pid p, SeqNumber = msgCounter p, Value = value\<rparr>
      in case initMessageState p cfg rnd msgData of
           Inl e \<Rightarrow> Inl e
         | Inr (p1, msgState, ev0) \<Rightarrow>
             (let (ms1, ev1) = broadcastGossip p1 msgState msgData;
                  p2 = storeState p1 msgData ms1
              in Inr (p2\<lparr>msgCounter := msgCounter p2 + 1\<rparr>, ev0 @ ev1)))"

definition Receive ::
  "process \<Rightarrow> config \<Rightarrow> randomness \<Rightarrow> pid \<Rightarrow> message \<Rightarrow> error + (process \<times> event list)"
where
  "Receive p cfg rnd sender message =
     (case message of
        Broadcast_msg v \<Rightarrow> Broadcast p cfg rnd v
      | Other_msg \<Rightarrow> Inr (p, [])
      | Protocol_msg msg \<Rightarrow>
         (case initMessageState p cfg rnd (MessageData msg) of
            Inl e \<Rightarrow> Inl e
          | Inr (p1, msgState, ev0) \<Rightarrow>
              (case Receive_stage p1 cfg msgState sender msg of
                 Inl e \<Rightarrow> Inl e
               | Inr (p2, ms', ev) \<Rightarrow> Inr (storeState p2 (MessageData msg) ms', ev0 @ ev))))"

subsection \<open>The dispatcher\<close>

text \<open>The actor host calls \<open>Receive\<close> for one message at a time. An input is the
  message, its sender, and the random values the call may draw. A panic ends the run.\<close>

fun run ::
  "process \<Rightarrow> config \<Rightarrow> (randomness \<times> pid \<times> message) list \<Rightarrow> error + (process \<times> event list)"
where
  "run p cfg [] = Inr (p, [])"
| "run p cfg ((rnd, sender, m) # ins) =
     (case Receive p cfg rnd sender m of
        Inl e \<Rightarrow> Inl e
      | Inr (p1, ev1) \<Rightarrow>
          (case run p1 cfg ins of
             Inl e \<Rightarrow> Inl e
           | Inr (p2, ev2) \<Rightarrow> Inr (p2, ev1 @ ev2)))"

subsection \<open>Observations\<close>

text \<open>\<open>p.deliveredMessages[author][seq]\<close>, read with the comma-ok form.\<close>

definition deliveredAt :: "process \<Rightarrow> pid \<Rightarrow> 64 word \<Rightarrow> valueType option" where
  "deliveredAt p author seq =
     (case deliveredMessages p author of
        None \<Rightarrow> None
      | Some inner \<Rightarrow> inner seq)"

text \<open>The events that report the delivery of the broadcast \<open>(author, seq)\<close>, the requests,
  and the requests that carry a READY.\<close>

definition acceptedFor :: "pid \<Rightarrow> 64 word \<Rightarrow> event \<Rightarrow> bool" where
  "acceptedFor author seq e =
     (case e of Printf_accepted _ s _ a \<Rightarrow> a = author \<and> s = seq | _ \<Rightarrow> False)"

definition isRequest :: "event \<Rightarrow> bool" where
  "isRequest e = (case e of Request _ _ _ \<Rightarrow> True | _ \<Rightarrow> False)"

definition isReadyRequest :: "event \<Rightarrow> bool" where
  "isReadyRequest e = (case e of Request _ m _ \<Rightarrow> Stage m = READY | _ \<Rightarrow> False)"

text \<open>The shape \<open>InitProcess\<close> and \<open>initMessageState\<close> give the maps of maps: an inner map
  for exactly the participants.\<close>

definition wellFormed :: "process \<Rightarrow> bool" where
  "wellFormed p \<longleftrightarrow>
     dom (messagesLog p) = set (pids p) \<and>
     dom (deliveredMessages p) = set (pids p) \<and>
     (\<forall>md ms. lookupState p md = Some ms \<longrightarrow> dom (receivedReady ms) = set (pids p))"

subsection \<open>A small system for the examples\<close>

text \<open>Three processes; the engine under study is \<open>a\<close>. With the random values of
  \<open>rndEx\<close>, the state created for a key has the gossip sample \<open>{b}\<close>, the echo and ready
  samples \<open>{b, c}\<close> and the delivery sample \<open>{b}\<close>. All thresholds are 1.\<close>

definition cfgEx :: config where
  "cfgEx = \<lparr>ProcessCount = 3, GossipSampleSize = 1, EchoSampleSize = 2, EchoThreshold = 1,
     ReadySampleSize = 2, ReadyThreshold = 1, DeliverySampleSize = 1, DeliveryThreshold = 1\<rparr>"

definition rndEx :: randomness where
  "rndEx = \<lparr>poissonDraw = 1, gossipDraws = [1], echoDraws = [1, 2], readyDraws = [1, 2],
     deliveryDraws = [1]\<rparr>"

definition pEx :: process where
  "pEx = InitProcess ''a'' [''a'', ''b'', ''c'']"

text \<open>Messages about the broadcast \<open>(b, 0)\<close>.\<close>

definition mdEx :: "64 word \<Rightarrow> messageData" where
  "mdEx v = \<lparr>Author = ''b'', SeqNumber = 0, Value = v\<rparr>"

definition msgEx :: "stage \<Rightarrow> 64 word \<Rightarrow> scalableProtocolMessage" where
  "msgEx stg v = \<lparr>Stage = stg, MessageData = mdEx v\<rparr>"

text \<open>The engine after a list of inputs.\<close>

definition after :: "(randomness \<times> pid \<times> message) list \<Rightarrow> process" where
  "after ins = (case run pEx cfgEx ins of Inl e \<Rightarrow> pEx | Inr (p, ev) \<Rightarrow> p)"


text \<open>Message data that name the engine \<open>a\<close> itself as the author, with the sequence
  number the engine will use for its first broadcast.\<close>

definition mdOwn :: "64 word \<Rightarrow> messageData" where
  "mdOwn v = \<lparr>Author = ''a'', SeqNumber = 0, Value = v\<rparr>"

section \<open>Properties\<close>

subsection \<open>Results of calls\<close>

text \<open>A call that does not panic returns its components.\<close>

lemma Inr_collapse:
  "(case x of Inl e \<Rightarrow> False | Inr y \<Rightarrow> True) \<Longrightarrow> x = Inr (fst (projr x), snd (projr x))"
  by (cases x) auto

lemma Inr_collapse3:
  "(case x of Inl e \<Rightarrow> False | Inr y \<Rightarrow> True) \<Longrightarrow>
   x = Inr (fst (projr x), fst (snd (projr x)), snd (snd (projr x)))"
  by (cases x) auto

subsection \<open>The log of per-broadcast states\<close>

lemma fold_upd_const:
  "fold (\<lambda>x m. m(x \<mapsto> c)) xs m0 = (\<lambda>k. if k \<in> set xs then Some c else m0 k)"
  by (induction xs arbitrary: m0) (auto simp: fun_eq_iff)

lemma lookupState_storeState:
  "lookupState p md \<noteq> None \<Longrightarrow>
   lookupState (storeState p md ms) md' =
     (if Author md' = Author md \<and> SeqNumber md' = SeqNumber md then Some ms
      else lookupState p md')"
  by (auto simp: lookupState_def storeState_def split: option.splits)

lemma storeState_same: "lookupState p md = Some ms \<Longrightarrow> storeState p md ms = p"
  by (auto simp: lookupState_def storeState_def map_upd_triv split: option.splits)

lemma storeState_frame:
  "deliveredMessages (storeState p md ms) = deliveredMessages p"
  "pids (storeState p md ms) = pids p"
  "pid (storeState p md ms) = pid p"
  "actorPid (storeState p md ms) = actorPid p"
  "actorPids (storeState p md ms) = actorPids p"
  "msgCounter (storeState p md ms) = msgCounter p"
  by (auto simp: storeState_def split: option.splits)

lemma initMessageState_existing:
  "lookupState p md = Some ms \<Longrightarrow> initMessageState p cfg rnd md = Inr (p, ms, [])"
  by (simp add: initMessageState_def)

lemma initMessageState_cases:
  assumes "initMessageState p cfg rnd md = Inr (p1, ms, ev)"
  shows "(lookupState p md = Some ms \<and> p1 = p \<and> ev = []) \<or>
         (lookupState p md = None \<and>
          (\<exists>inner g es rs ds.
             messagesLog p (Author md) = Some inner \<and>
             ms = newMessageState
                    \<lparr> receivedReady := fold (\<lambda>x m. m(x \<mapsto> {||})) (pids p) Map.empty,
                      gossipSample := g, echoSample := es,
                      readySample := rs, deliverySample := ds \<rparr> \<and>
             p1 = p\<lparr>messagesLog := (messagesLog p)(Author md \<mapsto> inner(SeqNumber md \<mapsto> ms))\<rparr>))"
  using assms
  by (auto simp: initMessageState_def Let_def split: option.splits sum.splits prod.splits)

lemma initMessageState_lookup:
  "initMessageState p cfg rnd md = Inr (p1, ms, ev) \<Longrightarrow> lookupState p1 md = Some ms"
  by (drule initMessageState_cases) (auto simp: lookupState_def)

lemma initMessageState_other:
  "initMessageState p cfg rnd md = Inr (p1, ms, ev) \<Longrightarrow>
   \<not> (Author md' = Author md \<and> SeqNumber md' = SeqNumber md) \<Longrightarrow>
   lookupState p1 md' = lookupState p md'"
  by (drule initMessageState_cases) (auto simp: lookupState_def)

lemma initMessageState_keeps:
  "initMessageState p cfg rnd md = Inr (p1, ms, ev) \<Longrightarrow> lookupState p md' = Some ms0 \<Longrightarrow>
   lookupState p1 md' = Some ms0"
  by (drule initMessageState_cases) (auto simp: lookupState_def split: if_splits)

lemma initMessageState_frame:
  assumes "initMessageState p cfg rnd md = Inr (p1, ms, ev)"
  shows "deliveredMessages p1 = deliveredMessages p" "pids p1 = pids p" "pid p1 = pid p"
    "actorPid p1 = actorPid p" "actorPids p1 = actorPids p" "msgCounter p1 = msgCounter p"
    "dom (messagesLog p1) = dom (messagesLog p)"
  using initMessageState_cases [OF assms] by (auto split: if_splits)

lemma initMessageState_fresh:
  assumes "initMessageState p cfg rnd md = Inr (p1, ms, ev)" "lookupState p md = None"
  shows "gossipMessage ms = None" "echoMessage ms = None" "\<not> sentReadyFromSieve ms"
    "readyMessagesSent ms = {||}" "readySubscriptionSet ms = {||}"
    "receivedReady ms = (\<lambda>x. if x \<in> set (pids p) then Some {||} else None)"
  using initMessageState_cases [OF assms(1)] assms(2)
  by (auto simp: newMessageState_def fold_upd_const)

subsection \<open>What a stage can change\<close>

lemmas stage_defs =
  Receive_GOSSIP_SUBSCRIBE_def Receive_GOSSIP_def Receive_ECHO_SUBSCRIBE_def Receive_ECHO_def
  Receive_READY_SUBSCRIBE_def Receive_READY_def Receive_READY_amplify_def
  Receive_READY_deliver_def maybeSendReadyFromSieve_def broadcastGossip_def

lemma maybeSendReadyFromSieve_flag:
  "maybeSendReadyFromSieve p cfg ms md = (ms', ev) \<Longrightarrow> sentReadyFromSieve ms \<Longrightarrow> ms' = ms \<and> ev = []"
  by (simp add: maybeSendReadyFromSieve_def)

lemma deliver_frame:
  assumes "deliver p md = Inr (p', ev)"
  shows "messagesLog p' = messagesLog p" "pids p' = pids p" "pid p' = pid p"
    "actorPid p' = actorPid p" "actorPids p' = actorPids p" "msgCounter p' = msgCounter p"
    "dom (deliveredMessages p') = dom (deliveredMessages p)"
    "deliveredAt p' a s = (if a = Author md \<and> s = SeqNumber md then Some (Value md) else deliveredAt p a s)"
  using assms by (auto simp: deliver_def deliveredAt_def split: option.splits if_splits)

lemma delivered_iff: "fst (delivered p md) \<longleftrightarrow> deliveredAt p (Author md) (SeqNumber md) \<noteq> None"
  by (auto simp: delivered_def deliveredAt_def split: option.splits)

lemma Receive_READY_deliver_frame:
  assumes "Receive_READY_deliver p cfg ms sender md = Inr (p', ms', ev)"
  shows "messagesLog p' = messagesLog p" "pids p' = pids p" "pid p' = pid p"
    "actorPid p' = actorPid p" "actorPids p' = actorPids p" "msgCounter p' = msgCounter p"
    "dom (deliveredMessages p') = dom (deliveredMessages p)"
    "deliveredAt p a s = Some v \<Longrightarrow> deliveredAt p' a s = Some v"
proof -
  from assms consider "p' = p" |
    eva where "deliver p md = Inr (p', eva)" "\<not> fst (delivered p md)"
    by (auto simp: Receive_READY_deliver_def Let_def split: if_splits prod.splits sum.splits)
  note cs = this
  show "messagesLog p' = messagesLog p" by (rule cs) (auto dest: deliver_frame)
  show "pids p' = pids p" by (rule cs) (auto dest: deliver_frame)
  show "pid p' = pid p" by (rule cs) (auto dest: deliver_frame)
  show "actorPid p' = actorPid p" by (rule cs) (auto dest: deliver_frame)
  show "actorPids p' = actorPids p" by (rule cs) (auto dest: deliver_frame)
  show "msgCounter p' = msgCounter p" by (rule cs) (auto dest: deliver_frame)
  show "dom (deliveredMessages p') = dom (deliveredMessages p)"
    by (rule cs) (simp_all add: deliver_frame(7))
  show "deliveredAt p a s = Some v \<Longrightarrow> deliveredAt p' a s = Some v"
    by (rule cs) (auto simp: delivered_iff deliver_frame(8))
qed

lemma Receive_stage_cases:
  assumes "Receive_stage p cfg ms sender msg = Inr (p', ms', ev)"
  shows "(p' = p \<and> Stage msg \<noteq> READY) \<or>
         (Stage msg = READY \<and> Receive_READY p cfg ms sender (MessageData msg) = Inr (p', ms', ev))"
  using assms by (auto simp: Receive_stage_def Let_def split: stage.splits prod.splits)

lemma Receive_READY_cases:
  assumes "Receive_READY p cfg ms sender md = Inr (p', ms', ev)"
  shows "(p' = p \<and> ms' = ms \<and> ev = []) \<or>
         (\<exists>vs ms2 ev1 ev2. receivedReady ms sender = Some vs \<and> Value md |\<notin>| vs \<and>
            Receive_READY_amplify p cfg
              (ms\<lparr>receivedReady := (receivedReady ms)(sender \<mapsto> finsert (Value md) vs)\<rparr>) sender md
              = (ms2, ev1) \<and>
            Receive_READY_deliver p cfg ms2 sender md = Inr (p', ms', ev2) \<and> ev = ev1 @ ev2)"
  using assms
  by (auto simp: Receive_READY_def Let_def split: option.splits if_splits prod.splits sum.splits)

lemma Receive_stage_frame:
  assumes "Receive_stage p cfg ms sender msg = Inr (p', ms', ev)"
  shows "messagesLog p' = messagesLog p" "pids p' = pids p" "pid p' = pid p"
    "actorPid p' = actorPid p" "actorPids p' = actorPids p" "msgCounter p' = msgCounter p"
    "dom (deliveredMessages p') = dom (deliveredMessages p)"
    "deliveredAt p a s = Some v \<Longrightarrow> deliveredAt p' a s = Some v"
proof -
  from Receive_stage_cases [OF assms] consider "p' = p" |
    ms2 where "Receive_READY_deliver p cfg ms2 sender (MessageData msg) = Inr (p', ms', ev)" |
    ms2 ev2 where "Receive_READY_deliver p cfg ms2 sender (MessageData msg) = Inr (p', ms', ev2)"
    by (auto dest!: Receive_READY_cases)
  note cs = this
  show "messagesLog p' = messagesLog p" by (rule cs) (auto dest: Receive_READY_deliver_frame)
  show "pids p' = pids p" by (rule cs) (auto dest: Receive_READY_deliver_frame)
  show "pid p' = pid p" by (rule cs) (auto dest: Receive_READY_deliver_frame)
  show "actorPid p' = actorPid p" by (rule cs) (auto dest: Receive_READY_deliver_frame)
  show "actorPids p' = actorPids p" by (rule cs) (auto dest: Receive_READY_deliver_frame)
  show "msgCounter p' = msgCounter p" by (rule cs) (auto dest: Receive_READY_deliver_frame)
  show "dom (deliveredMessages p') = dom (deliveredMessages p)"
    by (rule cs) (simp_all add: Receive_READY_deliver_frame(7))
  show "deliveredAt p a s = Some v \<Longrightarrow> deliveredAt p' a s = Some v"
    by (rule cs) (auto dest: Receive_READY_deliver_frame(8))
qed

lemma Receive_stage_flag:
  "Receive_stage p cfg ms sender msg = Inr (p', ms', ev) \<Longrightarrow> sentReadyFromSieve ms \<Longrightarrow>
   sentReadyFromSieve ms'"
  by (auto simp: Receive_stage_def stage_defs Let_def
      split: stage.splits prod.splits if_splits option.splits sum.splits)

lemma Receive_stage_cached:
  assumes "Receive_stage p cfg ms sender msg = Inr (p', ms', ev)"
  shows "gossipMessage ms = Some g \<Longrightarrow> gossipMessage ms' = Some g"
    "gossipMessage ms \<noteq> None \<Longrightarrow> echoMessage ms' = echoMessage ms"
    "echoMessage ms \<noteq> None \<longrightarrow> gossipMessage ms \<noteq> None \<Longrightarrow>
       echoMessage ms' \<noteq> None \<longrightarrow> gossipMessage ms' \<noteq> None"
    "dom (receivedReady ms') = dom (receivedReady ms)"
    "readyMessagesSent ms |\<subseteq>| readyMessagesSent ms'"
  using assms
  by (auto simp: Receive_stage_def stage_defs Let_def
      split: stage.splits prod.splits if_splits option.splits sum.splits)

subsection \<open>What a call of Receive can change\<close>

lemma Receive_Protocol_cases:
  assumes "Receive p cfg rnd sender (Protocol_msg msg) = Inr (p', ev)"
  shows "\<exists>p1 ms ev0 p2 ms' ev1.
           initMessageState p cfg rnd (MessageData msg) = Inr (p1, ms, ev0) \<and>
           Receive_stage p1 cfg ms sender msg = Inr (p2, ms', ev1) \<and>
           p' = storeState p2 (MessageData msg) ms' \<and> ev = ev0 @ ev1"
  using assms by (auto simp: Receive_def split: sum.splits prod.splits)

lemma Broadcast_cases:
  assumes "Broadcast p cfg rnd v = Inr (p', ev)"
  shows "\<exists>p1 ms ev0.
           initMessageState p cfg rnd \<lparr>Author = pid p, SeqNumber = msgCounter p, Value = v\<rparr>
             = Inr (p1, ms, ev0) \<and>
           p' = (storeState p1 \<lparr>Author = pid p, SeqNumber = msgCounter p, Value = v\<rparr>
                   (ms\<lparr>gossipMessage := Some \<lparr>Stage = GOSSIP,
                          MessageData = \<lparr>Author = pid p, SeqNumber = msgCounter p, Value = v\<rparr>\<rparr>\<rparr>))
                \<lparr>msgCounter := msgCounter p + 1\<rparr> \<and>
           ev = ev0 @ broadcastToSet p1 (gossipSample ms)
                  \<lparr>Stage = GOSSIP,
                   MessageData = \<lparr>Author = pid p, SeqNumber = msgCounter p, Value = v\<rparr>\<rparr>"
  using assms 
  by (auto simp: Broadcast_def broadcastGossip_def Let_def storeState_frame
      dest: initMessageState_frame(6) split: sum.splits prod.splits)

lemma lookupState_msgCounter [simp]:
  "lookupState (p\<lparr>msgCounter := c\<rparr>) md = lookupState p md"
  by (simp add: lookupState_def)

lemma deliveredAt_msgCounter [simp]:
  "deliveredAt (p\<lparr>msgCounter := c\<rparr>) a s = deliveredAt p a s"
  by (simp add: deliveredAt_def)

lemma lookupState_cong_log: "messagesLog p' = messagesLog p \<Longrightarrow> lookupState p' md = lookupState p md"
  by (simp add: lookupState_def)

lemma deliveredAt_cong: "deliveredMessages p' = deliveredMessages p \<Longrightarrow> deliveredAt p' a s = deliveredAt p a s"
  by (simp add: deliveredAt_def)

lemma lookupState_key:
  "Author k = Author md \<Longrightarrow> SeqNumber k = SeqNumber md \<Longrightarrow> lookupState p k = lookupState p md"
  by (simp add: lookupState_def split: option.splits)

text \<open>A property of per-broadcast states that every stage keeps and that caching a gossip
  message keeps is kept, key by key, by every call of Receive.\<close>

lemma Receive_keeps:
  assumes step: "Receive p cfg rnd sender m = Inr (p', ev)"
    and look: "lookupState p k = Some ms0" and P: "P ms0"
    and stage: "\<And>p ms sender msg p2 ms' ev.
                  Receive_stage p cfg ms sender msg = Inr (p2, ms', ev) \<Longrightarrow> P ms \<Longrightarrow> P ms'"
    and gossip: "\<And>ms g. P ms \<Longrightarrow> P (ms\<lparr>gossipMessage := Some g\<rparr>)"
  shows "\<exists>ms1. lookupState p' k = Some ms1 \<and> P ms1"
proof (cases m)
  case Other_msg
  with step look P show ?thesis by (auto simp: Receive_def)
next
  case (Protocol_msg msg)
  let ?md = "MessageData msg"
  from step Protocol_msg obtain p1 ms evA p2 ms' evB where
    init: "initMessageState p cfg rnd ?md = Inr (p1, ms, evA)" and
    st: "Receive_stage p1 cfg ms sender msg = Inr (p2, ms', evB)" and
    p': "p' = storeState p2 ?md ms'"
    by (auto dest!: Receive_Protocol_cases)
  have l1: "lookupState p1 ?md = Some ms" by (rule initMessageState_lookup [OF init])
  have l2: "lookupState p2 = lookupState p1"
    using Receive_stage_frame(1) [OF st] by (simp add: lookupState_def fun_eq_iff)
  have k1: "lookupState p1 k = Some ms0" by (rule initMessageState_keeps [OF init look])
  show ?thesis
  proof (cases "Author k = Author ?md \<and> SeqNumber k = SeqNumber ?md")
    case True
    then have "lookupState p1 k = lookupState p1 ?md" by (intro lookupState_key) simp_all
    with k1 l1 have "ms = ms0" by simp
    with P have "P ms" by simp
    then have "P ms'" by (rule stage [OF st])
    moreover have "lookupState p' k = Some ms'"
      using True l1 l2 by (simp add: p' lookupState_storeState)
    ultimately show ?thesis by blast
  next
    case False
    then have "lookupState p' k = lookupState p1 k"
      using l1 l2 by (auto simp: p' lookupState_storeState)
    with k1 P show ?thesis by simp
  qed
next
  case (Broadcast_msg v)
  let ?md = "\<lparr>Author = pid p, SeqNumber = msgCounter p, Value = v\<rparr>"
  from step Broadcast_msg have "Broadcast p cfg rnd v = Inr (p', ev)" by (simp add: Receive_def)
  from Broadcast_cases [OF this] obtain p1 ms evA where
    init: "initMessageState p cfg rnd ?md = Inr (p1, ms, evA)" and
    p': "p' = (storeState p1 ?md (ms\<lparr>gossipMessage := Some \<lparr>Stage = GOSSIP, MessageData = ?md\<rparr>\<rparr>))
                \<lparr>msgCounter := msgCounter p + 1\<rparr>"
    by (elim exE conjE)
  have l1: "lookupState p1 ?md = Some ms" by (rule initMessageState_lookup [OF init])
  have k1: "lookupState p1 k = Some ms0" by (rule initMessageState_keeps [OF init look])
  show ?thesis
  proof (cases "Author k = Author ?md \<and> SeqNumber k = SeqNumber ?md")
    case True
    then have "lookupState p1 k = lookupState p1 ?md" by (intro lookupState_key) simp_all
    with k1 l1 have "ms = ms0" by simp
    with P have "P ms" by simp
    then have "P (ms\<lparr>gossipMessage := Some \<lparr>Stage = GOSSIP, MessageData = ?md\<rparr>\<rparr>)"
      by (rule gossip)
    moreover have "lookupState p' k = Some (ms\<lparr>gossipMessage := Some \<lparr>Stage = GOSSIP, MessageData = ?md\<rparr>\<rparr>)"
      using True l1 by (simp add: p' lookupState_storeState)
    ultimately show ?thesis by blast
  next
    case False
    then have "lookupState p' k = lookupState p1 k"
      using l1 by (auto simp: p' lookupState_storeState)
    with k1 P show ?thesis by simp
  qed
qed

lemma run_keeps:
  assumes stage: "\<And>p ms sender msg p2 ms' ev.
                  Receive_stage p cfg ms sender msg = Inr (p2, ms', ev) \<Longrightarrow> P ms \<Longrightarrow> P ms'"
    and gossip: "\<And>ms g. P ms \<Longrightarrow> P (ms\<lparr>gossipMessage := Some g\<rparr>)"
  shows "run p cfg ins = Inr (p', ev) \<Longrightarrow> lookupState p k = Some ms0 \<Longrightarrow> P ms0 \<Longrightarrow>
         \<exists>ms1. lookupState p' k = Some ms1 \<and> P ms1"
proof (induction ins arbitrary: p ev ms0)
  case Nil
  then show ?case by auto
next
  case (Cons i ins)
  obtain rnd sender m where i: "i = (rnd, sender, m)" by (cases i)
  from Cons.prems(1) i obtain p1 ev1 ev2 where
    s1: "Receive p cfg rnd sender m = Inr (p1, ev1)" and s2: "run p1 cfg ins = Inr (p', ev2)"
    by (auto split: sum.splits prod.splits)
  have "\<exists>ms1. lookupState p1 k = Some ms1 \<and> P ms1"
    by (rule Receive_keeps [where P = P, OF s1 Cons.prems(2,3)]) (erule (1) stage, erule gossip)
  then obtain ms1 where "lookupState p1 k = Some ms1" "P ms1" by blast
  from Cons.IH [OF s2 this] show ?case .
qed

lemma Receive_delivered_mono:
  assumes "Receive p cfg rnd sender m = Inr (p', ev)" "deliveredAt p a s = Some v"
  shows "deliveredAt p' a s = Some v"
proof (cases m)
  case Other_msg
  with assms show ?thesis by (auto simp: Receive_def)
next
  case (Protocol_msg msg)
  with assms(1) obtain p1 ms evA p2 ms' evB where
    init: "initMessageState p cfg rnd (MessageData msg) = Inr (p1, ms, evA)" and
    st: "Receive_stage p1 cfg ms sender msg = Inr (p2, ms', evB)" and
    p': "p' = storeState p2 (MessageData msg) ms'"
    by (auto dest!: Receive_Protocol_cases)
  have "deliveredAt p1 a s = Some v"
    using initMessageState_frame(1) [OF init] assms(2) by (simp add: deliveredAt_def)
  then have "deliveredAt p2 a s = Some v" by (rule Receive_stage_frame(8) [OF st])
  then show ?thesis by (simp add: p' deliveredAt_def storeState_frame)
next
  case (Broadcast_msg v')
  with assms(1) have "Broadcast p cfg rnd v' = Inr (p', ev)" by (simp add: Receive_def)
  from Broadcast_cases [OF this] obtain p1 ms evA where
    init: "initMessageState p cfg rnd \<lparr>Author = pid p, SeqNumber = msgCounter p, Value = v'\<rparr> = Inr (p1, ms, evA)" and
    "p' = (storeState p1 \<lparr>Author = pid p, SeqNumber = msgCounter p, Value = v'\<rparr>
                   (ms\<lparr>gossipMessage := Some \<lparr>Stage = GOSSIP,
                          MessageData = \<lparr>Author = pid p, SeqNumber = msgCounter p, Value = v'\<rparr>\<rparr>\<rparr>))
                \<lparr>msgCounter := msgCounter p + 1\<rparr>"
    by (elim exE conjE)
  then have p': "deliveredMessages p' = deliveredMessages p1"
    by (simp add: storeState_frame)
  show ?thesis
    using initMessageState_frame(1) [OF init] assms(2) p' by (simp add: deliveredAt_def)
qed

lemma run_delivered_mono:
  "run p cfg ins = Inr (p', ev) \<Longrightarrow> deliveredAt p a s = Some v \<Longrightarrow> deliveredAt p' a s = Some v"
proof (induction ins arbitrary: p ev)
  case Nil
  then show ?case by simp
next
  case (Cons i ins)
  obtain rnd sender m where i: "i = (rnd, sender, m)" by (cases i)
  from Cons.prems(1) i obtain p1 ev1 ev2 where
    s1: "Receive p cfg rnd sender m = Inr (p1, ev1)" and s2: "run p1 cfg ins = Inr (p', ev2)"
    by (auto split: sum.splits prod.splits)
  from Receive_delivered_mono [OF s1 Cons.prems(2)] Cons.IH [OF s2] show ?case by blast
qed

subsection \<open>GOSSIP\<close>

lemma Receive_GOSSIP_cached_noop:
  assumes "lookupState p (MessageData msg) = Some ms" "gossipMessage ms \<noteq> None"
    "Stage msg = GOSSIP"
  shows "Receive p cfg rnd sender (Protocol_msg msg) = Inr (p, [])"
  using assms
  by (auto simp: Receive_def initMessageState_existing Receive_stage_def Receive_GOSSIP_def
      storeState_same)

lemma Receive_GOSSIP_caches:
  assumes "Receive p cfg rnd sender (Protocol_msg msg) = Inr (p1, ev)" "Stage msg = GOSSIP"
  shows "\<exists>ms1. lookupState p1 (MessageData msg) = Some ms1 \<and> gossipMessage ms1 \<noteq> None"
proof -
  from Receive_Protocol_cases [OF assms(1)] obtain p0 ms ev0 p2 ms' ev1 where
    init: "initMessageState p cfg rnd (MessageData msg) = Inr (p0, ms, ev0)" and
    st: "Receive_stage p0 cfg ms sender msg = Inr (p2, ms', ev1)" and
    p1: "p1 = storeState p2 (MessageData msg) ms'"
    by (elim exE conjE)
  have "lookupState p2 (MessageData msg) = Some ms"
    using initMessageState_lookup [OF init] Receive_stage_frame(1) [OF st]
    by (simp add: lookupState_def)
  then have "lookupState p1 (MessageData msg) = Some ms'"
    by (simp add: p1 lookupState_storeState)
  moreover have "gossipMessage ms' \<noteq> None"
    using st assms(2)
    by (auto simp: Receive_stage_def Receive_GOSSIP_def broadcastGossip_def
        maybeSendReadyFromSieve_def Let_def split: if_splits prod.splits option.splits)
  ultimately show ?thesis by blast
qed

lemma run_gossip_cached:
  assumes "run p cfg ins = Inr (p', ev)" "lookupState p k = Some ms0" "gossipMessage ms0 \<noteq> None"
  shows "\<exists>ms1. lookupState p' k = Some ms1 \<and> gossipMessage ms1 \<noteq> None"
proof (rule run_keeps [where P = "\<lambda>ms. gossipMessage ms \<noteq> None", OF _ _ assms])
  fix p ms sender msg p2 ms' ev
  assume "Receive_stage p cfg ms sender msg = Inr (p2, ms', ev)" "gossipMessage ms \<noteq> None"
  then show "gossipMessage ms' \<noteq> None"
    using Receive_stage_cached(1) by fastforce
next
  fix ms :: messageState and g
  show "gossipMessage (ms\<lparr>gossipMessage := Some g\<rparr>) \<noteq> None" by simp
qed

text \<open>
  Claim C6. Receiving a GOSSIP for a key whose \<open>gossipMessage\<close> is cached changes no field
  of the per-broadcast state and none of the engine, and sends nothing: the call returns the
  process it was given and no event. When the state \<open>initMessageState\<close> returns for the
  key (the existing one, or a new one) has no gossip message cached, the call caches the
  message, sends it to \<open>gossipSample\<close>, caches the ECHO with the same message data, sends
  it to \<open>echoSubscriptionSet\<close>, and runs the Sieve check, in this order. And the effect occurs on the first GOSSIP of a key only: once a GOSSIP for the key
  has been received, whatever the engine receives next, a further GOSSIP for the key (with
  any value, from any sender) has no effect.
\<close>

theorem gossip_effect_only_on_first:
  "(Stage msg = GOSSIP \<longrightarrow> lookupState p (MessageData msg) = Some ms \<longrightarrow>
      gossipMessage ms \<noteq> None \<longrightarrow>
      Receive p cfg rnd sender (Protocol_msg msg) = Inr (p, [])) \<and>
   (Stage msg = GOSSIP \<longrightarrow>
      initMessageState p cfg rnd (MessageData msg) = Inr (p0, ms0, ev0) \<longrightarrow>
      gossipMessage ms0 = None \<longrightarrow>
      (\<exists>ms' ev3.
         maybeSendReadyFromSieve p0 cfg
           (ms0\<lparr>gossipMessage := Some msg, echoMessage := Some (msg\<lparr>Stage := ECHO\<rparr>)\<rparr>)
           (MessageData msg) = (ms', ev3) \<and>
         Receive p cfg rnd sender (Protocol_msg msg) =
           Inr (storeState p0 (MessageData msg) ms',
                ev0 @ broadcastToSet p0 (gossipSample ms0) msg @
                broadcastToSet p0 (echoSubscriptionSet ms0) (msg\<lparr>Stage := ECHO\<rparr>) @ ev3))) \<and>
   (Stage msg = GOSSIP \<longrightarrow> Receive p cfg rnd sender (Protocol_msg msg) = Inr (p1, ev1) \<longrightarrow>
      run p1 cfg ins = Inr (p2, ev2) \<longrightarrow>
      Stage msg' = GOSSIP \<longrightarrow>
      Author (MessageData msg') = Author (MessageData msg) \<longrightarrow>
      SeqNumber (MessageData msg') = SeqNumber (MessageData msg) \<longrightarrow>
      Receive p2 cfg rnd' sender' (Protocol_msg msg') = Inr (p2, []))"
proof (intro conjI impI)
  assume "Stage msg = GOSSIP" "lookupState p (MessageData msg) = Some ms" "gossipMessage ms \<noteq> None"
  then show "Receive p cfg rnd sender (Protocol_msg msg) = Inr (p, [])"
    by (simp add: Receive_GOSSIP_cached_noop)
next
  assume a: "Stage msg = GOSSIP" "initMessageState p cfg rnd (MessageData msg) = Inr (p0, ms0, ev0)"
    "gossipMessage ms0 = None"
  have m: "\<lparr>Stage = GOSSIP, MessageData = MessageData msg\<rparr> = msg"
    "\<lparr>Stage = ECHO, MessageData = MessageData msg\<rparr> = msg\<lparr>Stage := ECHO\<rparr>"
    using a(1) by (cases msg; simp)+
  show "\<exists>ms' ev3.
         maybeSendReadyFromSieve p0 cfg
           (ms0\<lparr>gossipMessage := Some msg, echoMessage := Some (msg\<lparr>Stage := ECHO\<rparr>)\<rparr>)
           (MessageData msg) = (ms', ev3) \<and>
         Receive p cfg rnd sender (Protocol_msg msg) =
           Inr (storeState p0 (MessageData msg) ms',
                ev0 @ broadcastToSet p0 (gossipSample ms0) msg @
                broadcastToSet p0 (echoSubscriptionSet ms0) (msg\<lparr>Stage := ECHO\<rparr>) @ ev3)"
    using a
    by (simp add: Receive_def Receive_stage_def Receive_GOSSIP_def
        broadcastGossip_def Let_def m split: prod.splits)
next
  assume a: "Stage msg = GOSSIP" "Receive p cfg rnd sender (Protocol_msg msg) = Inr (p1, ev1)"
    "run p1 cfg ins = Inr (p2, ev2)" "Stage msg' = GOSSIP"
    "Author (MessageData msg') = Author (MessageData msg)"
    "SeqNumber (MessageData msg') = SeqNumber (MessageData msg)"
  from Receive_GOSSIP_caches [OF a(2,1)] obtain ms1 where
    "lookupState p1 (MessageData msg) = Some ms1" "gossipMessage ms1 \<noteq> None" by blast
  from run_gossip_cached [OF a(3) this] obtain ms2 where
    "lookupState p2 (MessageData msg) = Some ms2" and c: "gossipMessage ms2 \<noteq> None" by blast
  then have "lookupState p2 (MessageData msg') = Some ms2"
    using lookupState_key [OF a(5,6)] by simp
  from Receive_GOSSIP_cached_noop [OF this c a(4)]
  show "Receive p2 cfg rnd' sender' (Protocol_msg msg') = Inr (p2, [])" .
qed

theorem gossip_effect_only_on_first_witness:
  "Receive (after [(rndEx, ''b'', Protocol_msg (msgEx GOSSIP 1))]) cfgEx rndEx ''c''
     (Protocol_msg (msgEx GOSSIP 2)) =
   Inr (after [(rndEx, ''b'', Protocol_msg (msgEx GOSSIP 1))], []) \<and>
   Receive (after [(rndEx, ''b'', Protocol_msg (msgEx GOSSIP 1)),
                   (rndEx, ''c'', Protocol_msg (msgEx ECHO 1))]) cfgEx rndEx ''c''
     (Protocol_msg (msgEx GOSSIP 2)) =
   Inr (after [(rndEx, ''b'', Protocol_msg (msgEx GOSSIP 1)),
               (rndEx, ''c'', Protocol_msg (msgEx ECHO 1))], []) \<and>
   (\<exists>ms' ev3.
      maybeSendReadyFromSieve
        (fst (projr (initMessageState pEx cfgEx rndEx (mdEx 1)))) cfgEx
        ((fst (snd (projr (initMessageState pEx cfgEx rndEx (mdEx 1)))))
           \<lparr>gossipMessage := Some (msgEx GOSSIP 1),
            echoMessage := Some ((msgEx GOSSIP 1)\<lparr>Stage := ECHO\<rparr>)\<rparr>)
        (MessageData (msgEx GOSSIP 1)) = (ms', ev3) \<and>
      Receive pEx cfgEx rndEx ''b'' (Protocol_msg (msgEx GOSSIP 1)) =
      Inr (storeState (fst (projr (initMessageState pEx cfgEx rndEx (mdEx 1))))
             (MessageData (msgEx GOSSIP 1)) ms',
           snd (snd (projr (initMessageState pEx cfgEx rndEx (mdEx 1)))) @
           broadcastToSet (fst (projr (initMessageState pEx cfgEx rndEx (mdEx 1))))
             (gossipSample (fst (snd (projr (initMessageState pEx cfgEx rndEx (mdEx 1))))))
             (msgEx GOSSIP 1) @
           broadcastToSet (fst (projr (initMessageState pEx cfgEx rndEx (mdEx 1))))
             (echoSubscriptionSet (fst (snd (projr (initMessageState pEx cfgEx rndEx (mdEx 1))))))
             ((msgEx GOSSIP 1)\<lparr>Stage := ECHO\<rparr>) @ ev3))"
proof (intro conjI)
  let ?p1 = "after [(rndEx, ''b'', Protocol_msg (msgEx GOSSIP 1))]"
  have "case lookupState ?p1 (MessageData (msgEx GOSSIP 2)) of
          None \<Rightarrow> False | Some ms \<Rightarrow> gossipMessage ms \<noteq> None"
    by code_simp
  then have h: "lookupState ?p1 (MessageData (msgEx GOSSIP 2)) =
                  Some (the (lookupState ?p1 (MessageData (msgEx GOSSIP 2))))"
    "gossipMessage (the (lookupState ?p1 (MessageData (msgEx GOSSIP 2)))) \<noteq> None"
    by (auto split: option.splits)
  have g: "Stage (msgEx GOSSIP 2) = GOSSIP" by (simp add: msgEx_def)
  from gossip_effect_only_on_first [where msg = "msgEx GOSSIP 2" and p = ?p1
      and ms = "the (lookupState ?p1 (MessageData (msgEx GOSSIP 2)))" and cfg = cfgEx
      and rnd = rndEx and sender = "''c''"] g h
  show "Receive ?p1 cfgEx rndEx ''c'' (Protocol_msg (msgEx GOSSIP 2)) = Inr (?p1, [])"
    by blast
next
  let ?R = "Receive pEx cfgEx rndEx ''b'' (Protocol_msg (msgEx GOSSIP 1))"
  let ?ins = "[(rndEx, ''c'', Protocol_msg (msgEx ECHO 1))]"
  let ?p2 = "after ((rndEx, ''b'', Protocol_msg (msgEx GOSSIP 1)) # ?ins)"
  have ok: "case ?R of Inl e \<Rightarrow> False | Inr y \<Rightarrow> True" by code_simp
  then have r: "?R = Inr (fst (projr ?R), snd (projr ?R))" by (rule Inr_collapse)
  let ?S = "run (fst (projr ?R)) cfgEx ?ins"
  have ok2: "case ?S of Inl e \<Rightarrow> False | Inr y \<Rightarrow> True" by code_simp
  then have s: "?S = Inr (fst (projr ?S), snd (projr ?S))" by (rule Inr_collapse)
  from ok ok2 have p2: "?p2 = fst (projr ?S)"
    by (cases ?R; cases ?S) (auto simp: after_def)
  have h1: "Stage (msgEx GOSSIP 1) = GOSSIP" "Stage (msgEx GOSSIP 2) = GOSSIP"
    "Author (MessageData (msgEx GOSSIP 2)) = Author (MessageData (msgEx GOSSIP 1))"
    "SeqNumber (MessageData (msgEx GOSSIP 2)) = SeqNumber (MessageData (msgEx GOSSIP 1))"
    by (simp_all add: msgEx_def mdEx_def)
  from gossip_effect_only_on_first [where msg = "msgEx GOSSIP 1" and p = pEx and cfg = cfgEx
      and rnd = rndEx and sender = "''b''" and ?p1.0 = "fst (projr ?R)"
      and ?ev1.0 = "snd (projr ?R)" and ins = ?ins and ?p2.0 = "fst (projr ?S)"
      and ?ev2.0 = "snd (projr ?S)" and msg' = "msgEx GOSSIP 2" and rnd' = rndEx
      and sender' = "''c''"] h1 r s
  show "Receive ?p2 cfgEx rndEx ''c'' (Protocol_msg (msgEx GOSSIP 2)) = Inr (?p2, [])"
    unfolding p2 by blast
next
  let ?X = "initMessageState pEx cfgEx rndEx (mdEx 1)"
  have "case ?X of Inl e \<Rightarrow> False | Inr (p0, ms0, ev0) \<Rightarrow> gossipMessage ms0 = None"
    by code_simp
  then have x: "?X = Inr (fst (projr ?X), fst (snd (projr ?X)), snd (snd (projr ?X)))"
    and n: "gossipMessage (fst (snd (projr ?X))) = None"
    by (cases ?X; auto)+
  have g: "Stage (msgEx GOSSIP 1) = GOSSIP" by (simp add: msgEx_def)
  have m: "MessageData (msgEx GOSSIP 1) = mdEx 1" by (simp add: msgEx_def)
  from gossip_effect_only_on_first [where msg = "msgEx GOSSIP 1" and p = pEx and cfg = cfgEx
      and rnd = rndEx and sender = "''b''" and ?p0.0 = "fst (projr ?X)"
      and ?ms0.0 = "fst (snd (projr ?X))" and ?ev0.0 = "snd (snd (projr ?X))"] g x n
  show "\<exists>ms' ev3.
      maybeSendReadyFromSieve (fst (projr ?X)) cfgEx
        ((fst (snd (projr ?X)))
           \<lparr>gossipMessage := Some (msgEx GOSSIP 1),
            echoMessage := Some ((msgEx GOSSIP 1)\<lparr>Stage := ECHO\<rparr>)\<rparr>)
        (MessageData (msgEx GOSSIP 1)) = (ms', ev3) \<and>
      Receive pEx cfgEx rndEx ''b'' (Protocol_msg (msgEx GOSSIP 1)) =
      Inr (storeState (fst (projr ?X)) (MessageData (msgEx GOSSIP 1)) ms',
           snd (snd (projr ?X)) @
           broadcastToSet (fst (projr ?X)) (gossipSample (fst (snd (projr ?X)))) (msgEx GOSSIP 1) @
           broadcastToSet (fst (projr ?X)) (echoSubscriptionSet (fst (snd (projr ?X))))
             ((msgEx GOSSIP 1)\<lparr>Stage := ECHO\<rparr>) @ ev3)"
    unfolding m by blast
qed

subsection \<open>The Sieve path\<close>

lemma run_sieve_flag:
  assumes "run p cfg ins = Inr (p', ev)" "lookupState p k = Some ms0" "sentReadyFromSieve ms0"
  shows "\<exists>ms1. lookupState p' k = Some ms1 \<and> sentReadyFromSieve ms1"
proof (rule run_keeps [where P = sentReadyFromSieve, OF _ _ assms])
  fix p ms sender msg p2 ms' ev
  assume "Receive_stage p cfg ms sender msg = Inr (p2, ms', ev)" "sentReadyFromSieve ms"
  then show "sentReadyFromSieve ms'" by (rule Receive_stage_flag)
next
  fix ms :: messageState and g
  assume "sentReadyFromSieve ms"
  then show "sentReadyFromSieve (ms\<lparr>gossipMessage := Some g\<rparr>)" by simp
qed

text \<open>
  Claim C3. \<open>maybeSendReadyFromSieve\<close> does something exactly when \<open>sentReadyFromSieve\<close>
  is false, an echo message is cached, the value of the message at hand is the value of
  the cached echo message, and \<open>echoMessagesStat\<close> of that value has reached
  \<open>EchoThreshold\<close>; it then adds the value to \<open>readyMessagesSent\<close>, sends READY to
  \<open>readySubscriptionSet\<close> and sets \<open>sentReadyFromSieve\<close>; otherwise it changes nothing
  and sends nothing. For every key, once \<open>sentReadyFromSieve\<close> is true it is true after
  every run of the engine, and the Sieve check on that state does nothing: the path fires
  at most once for a pair \<open>(author, seq)\<close>.
\<close>

theorem sieve_fires_at_most_once:
  "maybeSendReadyFromSieve p cfg ms md =
     (if \<not> sentReadyFromSieve ms \<and>
         (\<exists>em. echoMessage ms = Some em \<and> Value md = Value (MessageData em)) \<and>
         EchoThreshold cfg \<le> sint (echoMessagesStat ms (Value md))
      then (ms\<lparr>readyMessagesSent := finsert (Value md) (readyMessagesSent ms),
               sentReadyFromSieve := True\<rparr>,
            broadcastToSet p (readySubscriptionSet ms) \<lparr>Stage = READY, MessageData = md\<rparr>)
      else (ms, [])) \<and>
   (run p cfg ins = Inr (p', ev) \<longrightarrow> lookupState p k = Some ms0 \<longrightarrow> sentReadyFromSieve ms0 \<longrightarrow>
      (\<exists>ms1. lookupState p' k = Some ms1 \<and> sentReadyFromSieve ms1 \<and>
             maybeSendReadyFromSieve p' cfg' ms1 md' = (ms1, [])))"
proof (intro conjI impI)
  show "maybeSendReadyFromSieve p cfg ms md =
     (if \<not> sentReadyFromSieve ms \<and>
         (\<exists>em. echoMessage ms = Some em \<and> Value md = Value (MessageData em)) \<and>
         EchoThreshold cfg \<le> sint (echoMessagesStat ms (Value md))
      then (ms\<lparr>readyMessagesSent := finsert (Value md) (readyMessagesSent ms),
               sentReadyFromSieve := True\<rparr>,
            broadcastToSet p (readySubscriptionSet ms) \<lparr>Stage = READY, MessageData = md\<rparr>)
      else (ms, []))"
    by (cases "echoMessage ms")
      (auto simp: maybeSendReadyFromSieve_def broadcastReady_def Let_def)
next
  assume "run p cfg ins = Inr (p', ev)" "lookupState p k = Some ms0" "sentReadyFromSieve ms0"
  from run_sieve_flag [OF this] obtain ms1 where
    "lookupState p' k = Some ms1" "sentReadyFromSieve ms1" by blast
  then show "\<exists>ms1. lookupState p' k = Some ms1 \<and> sentReadyFromSieve ms1 \<and>
             maybeSendReadyFromSieve p' cfg' ms1 md' = (ms1, [])"
    by (simp add: maybeSendReadyFromSieve_def)
qed

theorem sieve_fires_at_most_once_witness:
  "\<exists>ms1.
     lookupState
       (fst (projr (run (after [(rndEx, ''c'', Protocol_msg (msgEx READY_SUBSCRIBE 1)),
                                (rndEx, ''b'', Protocol_msg (msgEx GOSSIP 1)),
                                (rndEx, ''b'', Protocol_msg (msgEx ECHO 1))]) cfgEx
                      [(rndEx, ''c'', Protocol_msg (msgEx ECHO 1))])))
       (mdEx 1) = Some ms1 \<and>
     sentReadyFromSieve ms1 \<and>
     maybeSendReadyFromSieve
       (fst (projr (run (after [(rndEx, ''c'', Protocol_msg (msgEx READY_SUBSCRIBE 1)),
                                (rndEx, ''b'', Protocol_msg (msgEx GOSSIP 1)),
                                (rndEx, ''b'', Protocol_msg (msgEx ECHO 1))]) cfgEx
                      [(rndEx, ''c'', Protocol_msg (msgEx ECHO 1))])))
       cfgEx ms1 (mdEx 1) = (ms1, [])"
proof -
  let ?p = "after [(rndEx, ''c'', Protocol_msg (msgEx READY_SUBSCRIBE 1)),
                   (rndEx, ''b'', Protocol_msg (msgEx GOSSIP 1)),
                   (rndEx, ''b'', Protocol_msg (msgEx ECHO 1))]"
  let ?S = "run ?p cfgEx [(rndEx, ''c'', Protocol_msg (msgEx ECHO 1))]"
  have "case ?S of Inl e \<Rightarrow> False | Inr y \<Rightarrow> True" by code_simp
  then have s: "?S = Inr (fst (projr ?S), snd (projr ?S))" by (rule Inr_collapse)
  have "case lookupState ?p (mdEx 1) of None \<Rightarrow> False | Some ms \<Rightarrow> sentReadyFromSieve ms"
    by code_simp
  then have h: "lookupState ?p (mdEx 1) = Some (the (lookupState ?p (mdEx 1)))"
    "sentReadyFromSieve (the (lookupState ?p (mdEx 1)))"
    by (auto split: option.splits)
  from sieve_fires_at_most_once [where p = ?p and cfg = cfgEx and p' = "fst (projr ?S)"
      and ev = "snd (projr ?S)" and k = "mdEx 1" and ?ms0.0 = "the (lookupState ?p (mdEx 1))"
      and cfg' = cfgEx and md' = "mdEx 1"] s h
  show ?thesis by blast
qed

subsection \<open>Delivery\<close>

lemma broadcastToSet_requests: "e \<in> set (broadcastToSet p S m) \<Longrightarrow> isRequest e"
  by (auto simp: broadcastToSet_def isRequest_def)

lemma sample_requests:
  "sample p cfg stg md n rs = Inr (S, ev) \<Longrightarrow> e \<in> set ev \<Longrightarrow> isRequest e"
  by (auto simp: sample_def broadcastToSet_requests split: sum.splits)

lemma initMessageState_requests:
  assumes "initMessageState p cfg rnd md = Inr (p1, ms, ev)" "e \<in> set ev"
  shows "isRequest e"
  using assms
  by (auto simp: initMessageState_def Let_def
      split: option.splits sum.splits prod.splits
      dest: sample_requests broadcastToSet_requests)

lemma maybeSendReadyFromSieve_requests:
  "maybeSendReadyFromSieve p cfg ms md = (ms', ev) \<Longrightarrow> e \<in> set ev \<Longrightarrow> isRequest e"
  by (auto simp: maybeSendReadyFromSieve_def broadcastReady_def Let_def
      split: if_splits dest: broadcastToSet_requests)

lemma Receive_READY_amplify_requests:
  "Receive_READY_amplify p cfg ms sender md = (ms', ev) \<Longrightarrow> e \<in> set ev \<Longrightarrow> isRequest e"
  by (auto simp: Receive_READY_amplify_def broadcastReady_def Let_def
      split: if_splits dest: broadcastToSet_requests)

lemma not_accepted_request: "isRequest e \<Longrightarrow> \<not> acceptedFor a s e"
  by (cases e) (auto simp: isRequest_def acceptedFor_def)

lemma filter_requests:
  "(\<And>e. e \<in> set ev \<Longrightarrow> isRequest e) \<Longrightarrow> filter (acceptedFor a s) ev = []"
  by (auto simp: filter_empty_conv not_accepted_request)

lemma Receive_READY_deliver_accepted:
  assumes "Receive_READY_deliver p cfg ms sender md = Inr (p', ms', ev)"
  shows "filter (acceptedFor a s) ev = [] \<or>
         (filter (acceptedFor a s) ev = [Printf_accepted (pid p) s (Value md) a] \<and>
          deliveredAt p a s = None \<and> deliveredAt p' a s = Some (Value md))"
  using assms
  by (auto simp: Receive_READY_deliver_def delivered_def deliver_def deliveredAt_def
      acceptedFor_def Let_def split: if_splits option.splits prod.splits sum.splits)

lemma Receive_stage_accepted:
  assumes "Receive_stage p cfg ms sender msg = Inr (p', ms', ev)"
  shows "filter (acceptedFor a s) ev = [] \<or>
         (\<exists>v. filter (acceptedFor a s) ev = [Printf_accepted (pid p) s v a] \<and>
          deliveredAt p a s = None \<and> deliveredAt p' a s = Some v)"
proof (cases "Stage msg = READY")
  case False
  with assms have "\<And>e. e \<in> set ev \<Longrightarrow> isRequest e"
    by (auto simp: Receive_stage_def Receive_GOSSIP_SUBSCRIBE_def Receive_GOSSIP_def
        Receive_ECHO_SUBSCRIBE_def Receive_ECHO_def Receive_READY_SUBSCRIBE_def
        broadcastGossip_def Let_def
        split: stage.splits prod.splits if_splits option.splits
        dest: maybeSendReadyFromSieve_requests broadcastToSet_requests)
      (simp_all add: isRequest_def)
  then show ?thesis by (simp add: filter_requests)
next
  case True
  with assms have "Receive_READY p cfg ms sender (MessageData msg) = Inr (p', ms', ev)"
    by (simp add: Receive_stage_def)
  from Receive_READY_cases [OF this] show ?thesis
  proof (elim disjE exE conjE)
    assume "ev = []"
    then show ?thesis by simp
  next
    fix vs ms2 ev1 ev2
    assume a: "Receive_READY_amplify p cfg
        (ms\<lparr>receivedReady := (receivedReady ms)(sender \<mapsto> finsert (Value (MessageData msg)) vs)\<rparr>)
        sender (MessageData msg) = (ms2, ev1)"
      and d: "Receive_READY_deliver p cfg ms2 sender (MessageData msg) = Inr (p', ms', ev2)"
      and ev: "ev = ev1 @ ev2"
    have "filter (acceptedFor a s) ev1 = []"
      by (rule filter_requests) (rule Receive_READY_amplify_requests [OF a])
    with Receive_READY_deliver_accepted [OF d, of a s] ev show ?thesis by auto
  qed
qed

lemma Receive_accepted:
  assumes "Receive p cfg rnd sender m = Inr (p', ev)"
  shows "filter (acceptedFor a s) ev = [] \<or>
         (\<exists>v. filter (acceptedFor a s) ev = [Printf_accepted (pid p) s v a] \<and>
          deliveredAt p a s = None \<and> deliveredAt p' a s = Some v)"
proof (cases m)
  case Other_msg
  with assms show ?thesis by (simp add: Receive_def)
next
  case (Broadcast_msg v)
  with assms have "Broadcast p cfg rnd v = Inr (p', ev)" by (simp add: Receive_def)
  from Broadcast_cases [OF this] obtain p1 ms ev0 where
    init: "initMessageState p cfg rnd \<lparr>Author = pid p, SeqNumber = msgCounter p, Value = v\<rparr>
             = Inr (p1, ms, ev0)" and
    ev: "ev = ev0 @ broadcastToSet p1 (gossipSample ms)
                  \<lparr>Stage = GOSSIP,
                   MessageData = \<lparr>Author = pid p, SeqNumber = msgCounter p, Value = v\<rparr>\<rparr>"
    by (elim exE conjE)
  have "\<And>e. e \<in> set ev \<Longrightarrow> isRequest e"
    using initMessageState_requests [OF init] broadcastToSet_requests by (auto simp: ev)
  then show ?thesis by (simp add: filter_requests)
next
  case (Protocol_msg msg)
  with assms obtain p1 ms ev0 p2 ms' ev1 where
    init: "initMessageState p cfg rnd (MessageData msg) = Inr (p1, ms, ev0)" and
    st: "Receive_stage p1 cfg ms sender msg = Inr (p2, ms', ev1)" and
    p': "p' = storeState p2 (MessageData msg) ms'" and ev: "ev = ev0 @ ev1"
    by (auto dest!: Receive_Protocol_cases)
  have e0: "filter (acceptedFor a s) ev0 = []"
    by (rule filter_requests) (rule initMessageState_requests [OF init])
  have d1: "deliveredAt p1 a s = deliveredAt p a s" "pid p1 = pid p"
    using initMessageState_frame [OF init] by (simp_all add: deliveredAt_def)
  have d2: "deliveredAt p' a s = deliveredAt p2 a s"
    by (simp add: p' deliveredAt_def storeState_frame)
  from Receive_stage_accepted [OF st, of a s] show ?thesis
    by (simp add: ev e0 d1 d2)
qed

lemma run_accepted:
  "run p cfg ins = Inr (p', ev) \<Longrightarrow>
   (deliveredAt p a s \<noteq> None \<longrightarrow> filter (acceptedFor a s) ev = []) \<and>
   length (filter (acceptedFor a s) ev) \<le> 1"
proof (induction ins arbitrary: p ev)
  case Nil
  then show ?case by simp
next
  case (Cons i ins)
  obtain rnd sender m where i: "i = (rnd, sender, m)" by (cases i)
  from Cons.prems(1) i obtain p1 ev1 ev2 where
    s1: "Receive p cfg rnd sender m = Inr (p1, ev1)" and s2: "run p1 cfg ins = Inr (p', ev2)"
    and ev: "ev = ev1 @ ev2"
    by (auto split: sum.splits prod.splits)
  note ih = Cons.IH [OF s2]
  from Receive_accepted [OF s1, of a s] show ?case
  proof (elim disjE exE conjE)
    assume e1: "filter (acceptedFor a s) ev1 = []"
    have "deliveredAt p a s \<noteq> None \<Longrightarrow> deliveredAt p1 a s \<noteq> None"
      using Receive_delivered_mono [OF s1] by auto
    with ih e1 show ?thesis by (auto simp: ev)
  next
    fix v
    assume "filter (acceptedFor a s) ev1 = [Printf_accepted (pid p) s v a]"
      "deliveredAt p a s = None" "deliveredAt p1 a s = Some v"
    with ih show ?thesis by (simp add: ev)
  qed
qed

lemma Receive_READY_conflict:
  assumes look: "lookupState p md = Some ms"
    and dv: "deliveredAt p (Author md) (SeqNumber md) = Some v" "v \<noteq> Value md"
    and acc: "receivedReady ms sender = Some vs" "Value md |\<notin>| vs"
    and ds: "sender |\<in>| deliverySample ms"
  shows "\<exists>p' ev. Receive p cfg rnd sender (Protocol_msg \<lparr>Stage = READY, MessageData = md\<rparr>)
             = Inr (p', ev) \<and>
           Printf_attack (pid p) \<in> set ev \<and>
           deliveredAt p' (Author md) (SeqNumber md) = Some v"
proof -
  obtain ms2 ev1 where
    a: "Receive_READY_amplify p cfg
         (ms\<lparr>receivedReady := (receivedReady ms)(sender \<mapsto> finsert (Value md) vs)\<rparr>) sender md
        = (ms2, ev1)"
    by (cases "Receive_READY_amplify p cfg
         (ms\<lparr>receivedReady := (receivedReady ms)(sender \<mapsto> finsert (Value md) vs)\<rparr>) sender md")
  have ds2: "sender |\<in>| deliverySample ms2"
    using a ds by (auto simp: Receive_READY_amplify_def Let_def split: if_splits)
  have d: "delivered p md = (True, [Printf_attack (pid p)])"
    using dv by (auto simp: delivered_def deliveredAt_def split: option.splits)
  have "\<exists>ms3. Receive_READY_deliver p cfg ms2 sender md = Inr (p, ms3, [Printf_attack (pid p)])"
    using ds2 d by (simp add: Receive_READY_deliver_def Let_def)
  then obtain ms3 where
    "Receive_READY_deliver p cfg ms2 sender md = Inr (p, ms3, [Printf_attack (pid p)])" ..
  with a acc have "Receive_READY p cfg ms sender md = Inr (p, ms3, ev1 @ [Printf_attack (pid p)])"
    by (simp add: Receive_READY_def Let_def)
  then have "Receive p cfg rnd sender (Protocol_msg \<lparr>Stage = READY, MessageData = md\<rparr>)
      = Inr (storeState p md ms3, ev1 @ [Printf_attack (pid p)])"
    using look by (simp add: Receive_def initMessageState_existing Receive_stage_def)
  moreover have "deliveredAt (storeState p md ms3) (Author md) (SeqNumber md) = Some v"
    using dv by (simp add: deliveredAt_def storeState_frame)
  ultimately show ?thesis by simp
qed

lemma Receive_READY_silent:
  assumes init: "initMessageState p cfg rnd md = Inr (p0, ms, ev0)"
    and rr: "receivedReady ms sender = Some vs"
    and c: "sender |\<notin>| deliverySample ms \<or> Value md |\<in>| vs"
  shows "\<exists>p1 ev1.
           Receive p cfg rnd sender (Protocol_msg \<lparr>Stage = READY, MessageData = md\<rparr>)
             = Inr (p1, ev1) \<and>
           filter (\<lambda>e. \<not> isRequest e) ev1 = [] \<and>
           deliveredMessages p1 = deliveredMessages p"
proof -
  have e0: "filter (\<lambda>e. \<not> isRequest e) ev0 = []"
    using initMessageState_requests [OF init] by (simp add: filter_empty_conv)
  have d0: "deliveredMessages p0 = deliveredMessages p"
    by (rule initMessageState_frame(1) [OF init])
  have R: "Receive p cfg rnd sender (Protocol_msg \<lparr>Stage = READY, MessageData = md\<rparr>) =
             (case Receive_READY p0 cfg ms sender md of
                Inl e \<Rightarrow> Inl e
              | Inr (p2, ms', ev) \<Rightarrow> Inr (storeState p2 md ms', ev0 @ ev))"
    by (simp add: Receive_def init Receive_stage_def split: sum.splits)
  show ?thesis
  proof (cases "Value md |\<in>| vs")
    case True
    with rr have "Receive_READY p0 cfg ms sender md = Inr (p0, ms, [])"
      by (simp add: Receive_READY_def)
    then show ?thesis by (simp add: R e0 d0 storeState_frame)
  next
    case False
    with c have nd: "sender |\<notin>| deliverySample ms" by simp
    let ?ms1 = "ms\<lparr>receivedReady := (receivedReady ms)(sender \<mapsto> finsert (Value md) vs)\<rparr>"
    obtain ms2 ev1 where a: "Receive_READY_amplify p0 cfg ?ms1 sender md = (ms2, ev1)"
      by (cases "Receive_READY_amplify p0 cfg ?ms1 sender md")
    have e1: "filter (\<lambda>e. \<not> isRequest e) ev1 = []"
      using Receive_READY_amplify_requests [OF a] by (simp add: filter_empty_conv)
    have "deliverySample ms2 = deliverySample ms"
      using a by (auto simp: Receive_READY_amplify_def Let_def split: if_splits)
    with nd have "Receive_READY_deliver p0 cfg ms2 sender md = Inr (p0, ms2, [])"
      by (simp add: Receive_READY_deliver_def)
    with rr False a have "Receive_READY p0 cfg ms sender md = Inr (p0, ms2, ev1)"
      by (simp add: Receive_READY_def Let_def)
    then show ?thesis by (simp add: R e0 e1 d0 storeState_frame)
  qed
qed

text \<open>
  Claim C2, as the code has it. For every pair \<open>(author, seq)\<close>: along every run of the
  engine, a value recorded in \<open>deliveredMessages[author][seq]\<close> stays as it is, whatever is
  received or broadcast afterwards, and the run reports at most one delivery for the pair.
  A READY with a value other than the delivered one makes the engine print the
  duplicate-seq line and go on, when the READY is counted (this sender has not sent READY
  with this value before) and its sender is in \<open>deliverySample\<close>: the check is part of the
  delivery branch, which only such a READY reaches. A READY of a participant that is
  outside \<open>deliverySample\<close>, or that repeats a READY of the same sender with the same value,
  is processed and nothing is printed, whatever value it carries and whatever has been
  delivered; \<open>deliveredMessages\<close> is as before.
\<close>

theorem delivered_value_never_overwritten:
  "(run p cfg ins = Inr (p', ev) \<longrightarrow> deliveredAt p a s = Some v \<longrightarrow>
      deliveredAt p' a s = Some v) \<and>
   (run p cfg ins = Inr (p', ev) \<longrightarrow> length (filter (acceptedFor a s) ev) \<le> 1) \<and>
   (lookupState p md = Some ms \<longrightarrow>
      deliveredAt p (Author md) (SeqNumber md) = Some v \<longrightarrow> v \<noteq> Value md \<longrightarrow>
      receivedReady ms sender = Some vs \<longrightarrow> Value md |\<notin>| vs \<longrightarrow>
      sender |\<in>| deliverySample ms \<longrightarrow>
      (\<exists>p1 ev1.
         Receive p cfg rnd sender (Protocol_msg \<lparr>Stage = READY, MessageData = md\<rparr>)
           = Inr (p1, ev1) \<and>
         Printf_attack (pid p) \<in> set ev1 \<and>
         deliveredAt p1 (Author md) (SeqNumber md) = Some v)) \<and>
   (initMessageState p cfg rnd md = Inr (p0, ms0, ev0) \<longrightarrow>
      receivedReady ms0 sender = Some vs0 \<longrightarrow>
      sender |\<notin>| deliverySample ms0 \<or> Value md |\<in>| vs0 \<longrightarrow>
      (\<exists>p1 ev1.
         Receive p cfg rnd sender (Protocol_msg \<lparr>Stage = READY, MessageData = md\<rparr>)
           = Inr (p1, ev1) \<and>
         filter (\<lambda>e. \<not> isRequest e) ev1 = [] \<and>
         deliveredMessages p1 = deliveredMessages p))"
  using run_delivered_mono [of p cfg ins p' ev a s v] run_accepted [of p cfg ins p' ev a s]
    Receive_READY_conflict [of p md ms v sender vs cfg rnd]
    Receive_READY_silent [of p cfg rnd md p0 ms0 ev0 sender vs0]
  by blast

theorem delivered_value_never_overwritten_witness:
  "deliveredAt
     (fst (projr (run (after [(rndEx, ''b'', Protocol_msg (msgEx READY 1))]) cfgEx
                    [(rndEx, ''c'', Protocol_msg (msgEx READY 2))])))
     ''b'' 0 = Some 1 \<and>
   length (filter (acceptedFor ''b'' 0)
     (snd (projr (run pEx cfgEx
                    [(rndEx, ''b'', Protocol_msg (msgEx READY 1)),
                     (rndEx, ''c'', Protocol_msg (msgEx READY 1))])))) \<le> 1 \<and>
   (\<exists>p1 ev1.
      Receive (after [(rndEx, ''b'', Protocol_msg (msgEx READY 1))]) cfgEx rndEx ''b''
        (Protocol_msg \<lparr>Stage = READY, MessageData = mdEx 2\<rparr>) = Inr (p1, ev1) \<and>
      Printf_attack (pid (after [(rndEx, ''b'', Protocol_msg (msgEx READY 1))])) \<in> set ev1 \<and>
      deliveredAt p1 (Author (mdEx 2)) (SeqNumber (mdEx 2)) = Some 1) \<and>
   (\<exists>p1 ev1.
      Receive (after [(rndEx, ''b'', Protocol_msg (msgEx READY 1))]) cfgEx rndEx ''c''
        (Protocol_msg \<lparr>Stage = READY, MessageData = mdEx 2\<rparr>) = Inr (p1, ev1) \<and>
      filter (\<lambda>e. \<not> isRequest e) ev1 = [] \<and>
      deliveredMessages p1
        = deliveredMessages (after [(rndEx, ''b'', Protocol_msg (msgEx READY 1))])) \<and>
   (\<exists>p1 ev1.
      Receive (after [(rndEx, ''b'', Protocol_msg (msgEx READY 1))]) cfgEx rndEx ''b''
        (Protocol_msg \<lparr>Stage = READY, MessageData = mdEx 1\<rparr>) = Inr (p1, ev1) \<and>
      filter (\<lambda>e. \<not> isRequest e) ev1 = [] \<and>
      deliveredMessages p1
        = deliveredMessages (after [(rndEx, ''b'', Protocol_msg (msgEx READY 1))]))"
proof (intro conjI)
  let ?p = "after [(rndEx, ''b'', Protocol_msg (msgEx READY 1))]"
  let ?S = "run ?p cfgEx [(rndEx, ''c'', Protocol_msg (msgEx READY 2))]"
  have "case ?S of Inl e \<Rightarrow> False | Inr y \<Rightarrow> True" by code_simp
  then have s: "?S = Inr (fst (projr ?S), snd (projr ?S))" by (rule Inr_collapse)
  have d: "deliveredAt ?p ''b'' 0 = Some 1" by code_simp
  from delivered_value_never_overwritten [where p = ?p and cfg = cfgEx and p' = "fst (projr ?S)"
      and ev = "snd (projr ?S)" and a = "''b''" and s = 0 and v = 1] s d
  show "deliveredAt (fst (projr ?S)) ''b'' 0 = Some 1" by blast
next
  let ?T = "run pEx cfgEx [(rndEx, ''b'', Protocol_msg (msgEx READY 1)),
                           (rndEx, ''c'', Protocol_msg (msgEx READY 1))]"
  have "case ?T of Inl e \<Rightarrow> False | Inr y \<Rightarrow> True" by code_simp
  then have t: "?T = Inr (fst (projr ?T), snd (projr ?T))" by (rule Inr_collapse)
  from delivered_value_never_overwritten [where p = pEx and cfg = cfgEx
      and p' = "fst (projr ?T)" and ev = "snd (projr ?T)" and a = "''b''" and s = 0] t
  show "length (filter (acceptedFor ''b'' 0) (snd (projr ?T))) \<le> 1" by blast
next
  let ?p = "after [(rndEx, ''b'', Protocol_msg (msgEx READY 1))]"
  have "case lookupState ?p (mdEx 2) of
          None \<Rightarrow> False
        | Some ms \<Rightarrow>
            (case receivedReady ms ''b'' of None \<Rightarrow> False | Some vs \<Rightarrow> Value (mdEx 2) |\<notin>| vs) \<and>
            ''b'' |\<in>| deliverySample ms"
    by code_simp
  then have h: "lookupState ?p (mdEx 2) = Some (the (lookupState ?p (mdEx 2)))"
    "receivedReady (the (lookupState ?p (mdEx 2))) ''b'' =
       Some (the (receivedReady (the (lookupState ?p (mdEx 2))) ''b''))"
    "Value (mdEx 2) |\<notin>| the (receivedReady (the (lookupState ?p (mdEx 2))) ''b'')"
    "''b'' |\<in>| deliverySample (the (lookupState ?p (mdEx 2)))"
    by (auto split: option.splits)
  have d: "deliveredAt ?p (Author (mdEx 2)) (SeqNumber (mdEx 2)) = Some 1" "(1 :: 64 word) \<noteq> Value (mdEx 2)"
    by code_simp+
  from delivered_value_never_overwritten [where v = 1 and p = ?p and md = "mdEx 2"
      and ms = "the (lookupState ?p (mdEx 2))" and sender = "''b''"
      and vs = "the (receivedReady (the (lookupState ?p (mdEx 2))) ''b'')"
      and cfg = cfgEx and rnd = rndEx] h d
  show "\<exists>p1 ev1.
      Receive ?p cfgEx rndEx ''b''
        (Protocol_msg \<lparr>Stage = READY, MessageData = mdEx 2\<rparr>) = Inr (p1, ev1) \<and>
      Printf_attack (pid ?p) \<in> set ev1 \<and>
      deliveredAt p1 (Author (mdEx 2)) (SeqNumber (mdEx 2)) = Some 1"
    by blast
next
  let ?p = "after [(rndEx, ''b'', Protocol_msg (msgEx READY 1))]"
  let ?ms = "the (lookupState ?p (mdEx 2))"
  have "case lookupState ?p (mdEx 2) of
          None \<Rightarrow> False
        | Some ms \<Rightarrow>
            (case receivedReady ms ''c'' of None \<Rightarrow> False | Some vs \<Rightarrow> True) \<and>
            ''c'' |\<notin>| deliverySample ms"
    by code_simp
  then have h: "lookupState ?p (mdEx 2) = Some ?ms"
    "receivedReady ?ms ''c'' = Some (the (receivedReady ?ms ''c''))"
    "''c'' |\<notin>| deliverySample ?ms"
    by (auto split: option.splits)
  have i: "initMessageState ?p cfgEx rndEx (mdEx 2) = Inr (?p, ?ms, [])"
    by (rule initMessageState_existing [OF h(1)])
  from delivered_value_never_overwritten [where p = ?p and cfg = cfgEx and rnd = rndEx
      and md = "mdEx 2" and ?p0.0 = ?p and ?ms0.0 = ?ms and ?ev0.0 = "[]" and sender = "''c''"
      and ?vs0.0 = "the (receivedReady ?ms ''c'')"] i h(2,3)
  show "\<exists>p1 ev1.
      Receive ?p cfgEx rndEx ''c''
        (Protocol_msg \<lparr>Stage = READY, MessageData = mdEx 2\<rparr>) = Inr (p1, ev1) \<and>
      filter (\<lambda>e. \<not> isRequest e) ev1 = [] \<and>
      deliveredMessages p1 = deliveredMessages ?p"
    by blast
next
  let ?p = "after [(rndEx, ''b'', Protocol_msg (msgEx READY 1))]"
  let ?ms = "the (lookupState ?p (mdEx 1))"
  have "case lookupState ?p (mdEx 1) of
          None \<Rightarrow> False
        | Some ms \<Rightarrow>
            (case receivedReady ms ''b'' of None \<Rightarrow> False | Some vs \<Rightarrow> Value (mdEx 1) |\<in>| vs)"
    by code_simp
  then have h: "lookupState ?p (mdEx 1) = Some ?ms"
    "receivedReady ?ms ''b'' = Some (the (receivedReady ?ms ''b''))"
    "Value (mdEx 1) |\<in>| the (receivedReady ?ms ''b'')"
    by (auto split: option.splits)
  have i: "initMessageState ?p cfgEx rndEx (mdEx 1) = Inr (?p, ?ms, [])"
    by (rule initMessageState_existing [OF h(1)])
  from delivered_value_never_overwritten [where p = ?p and cfg = cfgEx and rnd = rndEx
      and md = "mdEx 1" and ?p0.0 = ?p and ?ms0.0 = ?ms and ?ev0.0 = "[]" and sender = "''b''"
      and ?vs0.0 = "the (receivedReady ?ms ''b'')"] i h(2,3)
  show "\<exists>p1 ev1.
      Receive ?p cfgEx rndEx ''b''
        (Protocol_msg \<lparr>Stage = READY, MessageData = mdEx 1\<rparr>) = Inr (p1, ev1) \<and>
      filter (\<lambda>e. \<not> isRequest e) ev1 = [] \<and>
      deliveredMessages p1 = deliveredMessages ?p"
    by blast
qed

text \<open>
  The claim as written has every later READY with a conflicting value logged. The engine
  \<open>a\<close> has delivered value 1 for the broadcast \<open>(b, 0)\<close>; a READY for \<open>(b, 0)\<close> with value 2
  arrives from \<open>c\<close>, which is in the ready sample and not in the delivery sample. The call
  returns, nothing is printed, and the delivered value is still 1.
\<close>

theorem conflicting_ready_not_logged:
  "deliveredAt (after [(rndEx, ''b'', Protocol_msg (msgEx READY 1))]) ''b'' 0 = Some 1 \<and>
   (case Receive (after [(rndEx, ''b'', Protocol_msg (msgEx READY 1))]) cfgEx rndEx ''c''
           (Protocol_msg (msgEx READY 2)) of
      Inl e \<Rightarrow> False
    | Inr (p1, ev1) \<Rightarrow>
        Printf_attack ''a'' \<notin> set ev1 \<and> filter (\<lambda>e. \<not> isRequest e) ev1 = [] \<and>
        deliveredAt p1 ''b'' 0 = Some 1)"
  by code_simp

subsection \<open>Sampler\<close>

lemma smod_draw: "int r smod c = int r mod \<bar>c\<bar>"
  by (cases "r = 0") (simp_all add: smod_int_alt_def)

lemma getRandomPid_eq:
  "getRandomPid p cfg r =
     (if ProcessCount cfg = 0 then Inl DivideByZero
      else if r mod nat \<bar>ProcessCount cfg\<bar> < length (pids p)
           then Inr (pids p ! (r mod nat \<bar>ProcessCount cfg\<bar>))
           else Inl IndexOutOfRange)"
proof -
  have "int r mod \<bar>ProcessCount cfg\<bar> = int (r mod nat \<bar>ProcessCount cfg\<bar>)"
    by (simp add: zmod_int)
  then show ?thesis
    by (simp add: getRandomPid_def smod_draw Let_def)
qed

lemma getRandomPid_ok:
  assumes "ProcessCount cfg \<noteq> 0" "\<bar>ProcessCount cfg\<bar> \<le> int (length (pids p))"
  shows "getRandomPid p cfg r = Inr (pids p ! (r mod nat \<bar>ProcessCount cfg\<bar>))"
    "r mod nat \<bar>ProcessCount cfg\<bar> < length (pids p)"
proof -
  have "0 < nat \<bar>ProcessCount cfg\<bar>" using assms(1) by simp
  then have "r mod nat \<bar>ProcessCount cfg\<bar> < nat \<bar>ProcessCount cfg\<bar>" by simp
  also have "\<dots> \<le> length (pids p)" using assms(2) by simp
  finally show "r mod nat \<bar>ProcessCount cfg\<bar> < length (pids p)" .
  then show "getRandomPid p cfg r = Inr (pids p ! (r mod nat \<bar>ProcessCount cfg\<bar>))"
    using assms(1) by (simp add: getRandomPid_eq)
qed




lemma sampleLoop_ok:
  assumes pc: "ProcessCount cfg \<noteq> 0" "\<bar>ProcessCount cfg\<bar> \<le> int (length (pids p))"
  shows "n \<le> length rs \<Longrightarrow>
         sampleLoop p cfg n rs S =
           Inr (S |\<union>| fset_of_list (map (\<lambda>r. pids p ! (r mod nat \<bar>ProcessCount cfg\<bar>)) (take n rs)))"
proof (induction n arbitrary: rs S)
  case 0
  then show ?case by simp
next
  case (Suc n)
  then obtain r rs' where rs: "rs = r # rs'" by (cases rs) auto
  with Suc.prems have "n \<le> length rs'" by simp
  from Suc.IH [OF this] show ?case
    by (simp add: rs getRandomPid_ok [OF pc])
qed

lemma fcard_fset_of_list_le: "fcard (fset_of_list xs) \<le> length xs"
  by (simp add: fcard.rep_eq fset_of_list.rep_eq card_length)

lemma drawn_pids_bound:
  assumes "c \<noteq> 0" "\<bar>c\<bar> \<le> int (length xs)"
  shows "fset (fset_of_list (map (\<lambda>r. xs ! (r mod nat \<bar>c\<bar>)) rs)) \<subseteq> set (take (nat \<bar>c\<bar>) xs)"
proof -
  have "xs ! (r mod nat \<bar>c\<bar>) \<in> set (take (nat \<bar>c\<bar>) xs)" for r
  proof -
    have "r mod nat \<bar>c\<bar> < nat \<bar>c\<bar>" using assms(1) by simp
    moreover have "nat \<bar>c\<bar> \<le> length xs" using assms(2) by simp
    ultimately show ?thesis by (auto simp: in_set_conv_nth intro!: exI [of _ "r mod nat \<bar>c\<bar>"])
  qed
  then show ?thesis by (auto simp: fset_of_list.rep_eq)
qed

lemma fcard_drawn_le:
  assumes "c \<noteq> 0" "\<bar>c\<bar> \<le> int (length xs)"
  shows "fcard (fset_of_list (map (\<lambda>r. xs ! (r mod nat \<bar>c\<bar>)) rs)) \<le> nat \<bar>c\<bar>"
proof -
  have "card (fset (fset_of_list (map (\<lambda>r. xs ! (r mod nat \<bar>c\<bar>)) rs)))
          \<le> card (set (take (nat \<bar>c\<bar>) xs))"
    by (rule card_mono [OF _ drawn_pids_bound [OF assms]]) simp
  also have "\<dots> \<le> length (take (nat \<bar>c\<bar>) xs)" by (rule card_length)
  also have "\<dots> \<le> nat \<bar>c\<bar>" by simp
  finally show ?thesis by (simp add: fcard.rep_eq)
qed

lemma gossipLoop_card:
  "gossipLoop p cfg gSize rs S = Inr S' \<Longrightarrow> int (fcard S) \<le> max 0 gSize \<Longrightarrow>
   int (fcard S') = max 0 gSize"
proof (induction rs arbitrary: S)
  case Nil
  then show ?case by (auto split: if_splits)
next
  case (Cons r rs)
  show ?case
  proof (cases "int (fcard S) < gSize")
    case False
    with Cons.prems show ?thesis by auto
  next
    case True
    with Cons.prems(1) obtain x where
      x: "gossipLoop p cfg gSize rs (finsert x S) = Inr S'"
      by (auto split: sum.splits)
    have "fcard (finsert x S) \<le> Suc (fcard S)"
      by (simp add: fcard_finsert_if)
    with True have "int (fcard (finsert x S)) \<le> max 0 gSize" by simp
    from Cons.IH [OF x this] show ?thesis .
  qed
qed

lemma gossipLoop_subset:
  "gossipLoop p cfg gSize rs S = Inr S' \<Longrightarrow> fset S \<subseteq> set (pids p) \<Longrightarrow> fset S' \<subseteq> set (pids p)"
proof (induction rs arbitrary: S)
  case Nil
  then show ?case by (auto split: if_splits)
next
  case (Cons r rs)
  show ?case
  proof (cases "int (fcard S) < gSize")
    case False
    with Cons.prems show ?thesis by auto
  next
    case True
    with Cons.prems(1) obtain x where
      x: "gossipLoop p cfg gSize rs (finsert x S) = Inr S'" and g: "getRandomPid p cfg r = Inr x"
      by (auto split: sum.splits)
    from g have "x \<in> set (pids p)"
      by (auto simp: getRandomPid_eq split: if_splits)
    with Cons.prems(2) have "fset (finsert x S) \<subseteq> set (pids p)" by simp
    from Cons.IH [OF x this] show ?thesis .
  qed
qed

lemma gossipLoop_terminates:
  assumes pc: "ProcessCount cfg \<noteq> 0" "\<bar>ProcessCount cfg\<bar> \<le> int (length (pids p))"
  shows "gSize \<le> int (card (fset S \<union> (\<lambda>r. pids p ! (r mod nat \<bar>ProcessCount cfg\<bar>)) ` set rs)) \<Longrightarrow>
         \<exists>S'. gossipLoop p cfg gSize rs S = Inr S'"
proof (induction rs arbitrary: S)
  case Nil
  then show ?case by (simp add: fcard.rep_eq)
next
  case (Cons r rs)
  let ?f = "\<lambda>r. pids p ! (r mod nat \<bar>ProcessCount cfg\<bar>)"
  have "fset (finsert (?f r) S) \<union> ?f ` set rs = fset S \<union> ?f ` set (r # rs)" by auto
  with Cons.prems have "gSize \<le> int (card (fset (finsert (?f r) S) \<union> ?f ` set rs))" by simp
  from Cons.IH [OF this] show ?case
    by (simp add: getRandomPid_ok [OF pc])
qed

text \<open>
  Claim C4, as the code has it. Let \<open>ProcessCount\<close> be positive and at most the length of
  the participant list. The uniform sampler \<open>sample\<close> with size \<open>s\<close> makes exactly \<open>s\<close>
  draws (none when \<open>s \<le> 0\<close>) and returns the set of the PIDs drawn, after sending the
  subscription to each of them: it always terminates, the set has as many members as the
  draws select different PIDs, which is at most \<open>min(s, ProcessCount)\<close>, and is less than
  \<open>s\<close> exactly when two of the draws select the same PID; it is empty when \<open>s \<le> 0\<close> and
  not empty when \<open>s > 0\<close>. The gossip sampler with the Poisson draw \<open>g \<ge> 0\<close> clips \<open>g\<close> to
  \<open>ProcessCount\<close> and draws until the set has that many members: when it returns the set has
  exactly \<open>min(g, ProcessCount)\<close> members, and it returns as soon as the random values have
  reached that many different PIDs.
\<close>

theorem sampler_sizes:
  "0 < ProcessCount cfg \<longrightarrow> ProcessCount cfg \<le> int (length (pids p)) \<longrightarrow>
   (nat size' \<le> length draws \<longrightarrow>
      (\<exists>S. sample p cfg stg md size' draws =
             Inr (S, broadcastToSet p S \<lparr>Stage = stg, MessageData = md\<rparr>) \<and>
           S = fset_of_list (map (\<lambda>r. pids p ! (r mod nat (ProcessCount cfg)))
                               (take (nat size') draws)) \<and>
           fcard S = card ((\<lambda>r. pids p ! (r mod nat (ProcessCount cfg)))
                             ` set (take (nat size') draws)) \<and>
           fcard S \<le> min (nat size') (nat (ProcessCount cfg)) \<and>
           (fcard S < nat size' \<longleftrightarrow>
              \<not> distinct (map (\<lambda>r. pids p ! (r mod nat (ProcessCount cfg)))
                              (take (nat size') draws))) \<and>
           fset S \<subseteq> set (pids p) \<and>
           (size' \<le> 0 \<longrightarrow> S = {||}) \<and> (0 < size' \<longrightarrow> S \<noteq> {||}))) \<and>
   (0 \<le> g \<longrightarrow> generateGossipSample p cfg g gdraws = Inr G \<longrightarrow>
      int (fcard G) = min g (ProcessCount cfg) \<and> fset G \<subseteq> set (pids p)) \<and>
   (min g (ProcessCount cfg)
      \<le> int (card ((\<lambda>r. pids p ! (r mod nat (ProcessCount cfg))) ` set gdraws)) \<longrightarrow>
      (\<exists>G'. generateGossipSample p cfg g gdraws = Inr G'))"
proof (intro impI conjI)
  assume pos: "0 < ProcessCount cfg" and le: "ProcessCount cfg \<le> int (length (pids p))"
  then have pc: "ProcessCount cfg \<noteq> 0" "\<bar>ProcessCount cfg\<bar> \<le> int (length (pids p))"
    and ab: "\<bar>ProcessCount cfg\<bar> = ProcessCount cfg"
    by simp_all
  let ?f = "\<lambda>r. pids p ! (r mod nat (ProcessCount cfg))"
  {
    assume n: "nat size' \<le> length draws"
    let ?S = "fset_of_list (map ?f (take (nat size') draws))"
    have 1: "sample p cfg stg md size' draws =
               Inr (?S, broadcastToSet p ?S \<lparr>Stage = stg, MessageData = md\<rparr>)"
      using sampleLoop_ok [OF pc n, of "{||}"] by (simp add: sample_def ab)
    have "fcard ?S \<le> length (map ?f (take (nat size') draws))"
      by (rule fcard_fset_of_list_le)
    then have 2: "fcard ?S \<le> nat size'" by simp
    have 3: "fcard ?S \<le> nat (ProcessCount cfg)"
      using fcard_drawn_le [OF pc(1), of "pids p" "take (nat size') draws"] pc(2)
      by (simp add: ab)
    have 4: "fset ?S \<subseteq> set (pids p)"
      using drawn_pids_bound [OF pc(1), of "pids p" "take (nat size') draws"] pc(2)
      by (auto simp: ab dest: in_set_takeD)
    have 5: "size' \<le> 0 \<longrightarrow> ?S = {||}" by simp
    have 6: "0 < size' \<longrightarrow> ?S \<noteq> {||}"
    proof
      assume "0 < size'"
      with n have "take (nat size') draws \<noteq> []" by auto
      then show "?S \<noteq> {||}"
        by (cases "take (nat size') draws") auto
    qed
    let ?xs = "map ?f (take (nat size') draws)"
    have len: "length ?xs = nat size'" using n by simp
    have 7: "fcard ?S = card (?f ` set (take (nat size') draws))"
      by (simp add: fcard.rep_eq fset_of_list.rep_eq)
    have c: "fcard ?S = card (set ?xs)"
      by (simp add: fcard.rep_eq fset_of_list.rep_eq)
    have 8: "fcard ?S < nat size' \<longleftrightarrow> \<not> distinct ?xs"
    proof
      assume "fcard ?S < nat size'"
      then have "card (set ?xs) \<noteq> length ?xs" using c len by simp
      then show "\<not> distinct ?xs" using distinct_card by blast
    next
      assume "\<not> distinct ?xs"
      then have "card (set ?xs) \<noteq> length ?xs" using card_distinct by blast
      moreover have "card (set ?xs) \<le> length ?xs" by (rule card_length)
      ultimately show "fcard ?S < nat size'" using c len by simp
    qed
    from 1 2 3 4 5 6 7 8
    show "\<exists>S. sample p cfg stg md size' draws =
             Inr (S, broadcastToSet p S \<lparr>Stage = stg, MessageData = md\<rparr>) \<and>
           S = fset_of_list (map ?f (take (nat size') draws)) \<and>
           fcard S = card (?f ` set (take (nat size') draws)) \<and>
           fcard S \<le> min (nat size') (nat (ProcessCount cfg)) \<and>
           (fcard S < nat size' \<longleftrightarrow> \<not> distinct (map ?f (take (nat size') draws))) \<and>
           fset S \<subseteq> set (pids p) \<and>
           (size' \<le> 0 \<longrightarrow> S = {||}) \<and> (0 < size' \<longrightarrow> S \<noteq> {||})"
      by (intro exI [of _ ?S] conjI) (assumption | simp)+
  }
  {
    assume g: "0 \<le> g" and G: "generateGossipSample p cfg g gdraws = Inr G"
    let ?n = "if g > ProcessCount cfg then ProcessCount cfg else g"
    from G have l: "gossipLoop p cfg ?n gdraws {||} = Inr G"
      by (simp add: generateGossipSample_def Let_def)
    have "int (fcard G) = max 0 ?n"
      by (rule gossipLoop_card [OF l]) (simp add: fcard_fempty)
    then show "int (fcard G) = min g (ProcessCount cfg)"
      using g pos by (auto simp: min_def max_def split: if_splits)
    show "fset G \<subseteq> set (pids p)"
      by (rule gossipLoop_subset [OF l]) simp
  }
  {
    assume c: "min g (ProcessCount cfg) \<le> int (card (?f ` set gdraws))"
    let ?n = "if g > ProcessCount cfg then ProcessCount cfg else g"
    have "?n \<le> int (card (fset {||} \<union> (\<lambda>r. pids p ! (r mod nat \<bar>ProcessCount cfg\<bar>)) ` set gdraws))"
      using c by (simp add: ab min_def split: if_splits)
    from gossipLoop_terminates [OF pc this]
    show "\<exists>G'. generateGossipSample p cfg g gdraws = Inr G'"
      by (simp add: generateGossipSample_def Let_def)
  }
qed

theorem sampler_sizes_witness:
  "(\<exists>S. sample pEx cfgEx ECHO_SUBSCRIBE (mdEx 1) 5 [0, 4, 1, 3, 6] =
          Inr (S, broadcastToSet pEx S \<lparr>Stage = ECHO_SUBSCRIBE, MessageData = mdEx 1\<rparr>) \<and>
        S = fset_of_list (map (\<lambda>r. pids pEx ! (r mod nat (ProcessCount cfgEx)))
                            (take (nat 5) [0, 4, 1, 3, 6])) \<and>
        fcard S \<le> min (nat 5) (nat (ProcessCount cfgEx)) \<and> fcard S < nat 5 \<and>
        fset S \<subseteq> set (pids pEx) \<and> S \<noteq> {||}) \<and>
   int (fcard (projr (generateGossipSample pEx cfgEx 5 [0, 3, 1, 1, 2, 0])))
     = min 5 (ProcessCount cfgEx) \<and>
   (\<exists>G'. generateGossipSample pEx cfgEx 2 [0, 3, 1, 1, 2, 0] = Inr G')"
proof (intro conjI)
  have pc: "0 < ProcessCount cfgEx" "ProcessCount cfgEx \<le> int (length (pids pEx))"
    by (simp_all add: cfgEx_def pEx_def InitProcess_def)
  have n: "nat 5 \<le> length [0, 4, 1, 3, 6 :: nat]" by simp
  have r: "\<not> distinct (map (\<lambda>r. pids pEx ! (r mod nat (ProcessCount cfgEx)))
                          (take (nat 5) [0, 4, 1, 3, 6]))"
    by code_simp
  have 5: "(0 :: int) < 5" by simp
  from sampler_sizes [where cfg = cfgEx and p = pEx and size' = 5 and draws = "[0, 4, 1, 3, 6]"
      and stg = ECHO_SUBSCRIBE and md = "mdEx 1"] pc n r 5
  show "\<exists>S. sample pEx cfgEx ECHO_SUBSCRIBE (mdEx 1) 5 [0, 4, 1, 3, 6] =
          Inr (S, broadcastToSet pEx S \<lparr>Stage = ECHO_SUBSCRIBE, MessageData = mdEx 1\<rparr>) \<and>
        S = fset_of_list (map (\<lambda>r. pids pEx ! (r mod nat (ProcessCount cfgEx)))
                            (take (nat 5) [0, 4, 1, 3, 6])) \<and>
        fcard S \<le> min (nat 5) (nat (ProcessCount cfgEx)) \<and> fcard S < nat 5 \<and>
        fset S \<subseteq> set (pids pEx) \<and> S \<noteq> {||}"
    by blast
  let ?G = "generateGossipSample pEx cfgEx 5 [0, 3, 1, 1, 2, 0]"
  have "case ?G of Inl e \<Rightarrow> False | Inr y \<Rightarrow> True" by code_simp
  then have G: "?G = Inr (projr ?G)" by (cases ?G) auto
  from sampler_sizes [where cfg = cfgEx and p = pEx and g = 5 and gdraws = "[0, 3, 1, 1, 2, 0]"
      and G = "projr ?G"] pc G
  show "int (fcard (projr ?G)) = min 5 (ProcessCount cfgEx)" by simp
  have "min 2 (ProcessCount cfgEx)
          \<le> int (card ((\<lambda>r. pids pEx ! (r mod nat (ProcessCount cfgEx))) ` set [0, 3, 1, 1, 2, 0]))"
    by code_simp
  with sampler_sizes [where cfg = cfgEx and p = pEx and g = 2 and gdraws = "[0, 3, 1, 1, 2, 0]"] pc
  show "\<exists>G'. generateGossipSample pEx cfgEx 2 [0, 3, 1, 1, 2, 0] = Inr G'" by blast
qed

text \<open>
  The claim as written gives the uniform sampler a set of exactly \<open>min(s, N)\<close> members. With
  three participants and \<open>s = 2\<close>, the draws 0 and 3 both select the first participant: the
  sample has one member. With \<open>s = 5 > N\<close> and five draws that select the first two
  participants only, the sample has two members, not three.
\<close>

theorem uniform_sample_repeats:
  "(case sample pEx cfgEx ECHO_SUBSCRIBE (mdEx 1) 2 [0, 3] of
      Inl e \<Rightarrow> False
    | Inr (S, ev) \<Rightarrow> fcard S = 1 \<and> min 2 (length (pids pEx)) = 2) \<and>
   (case sample pEx cfgEx ECHO_SUBSCRIBE (mdEx 1) 5 [0, 4, 1, 3, 6] of
      Inl e \<Rightarrow> False
    | Inr (S, ev) \<Rightarrow> fcard S = 2 \<and> min 5 (length (pids pEx)) = 3)"
  by code_simp

subsection \<open>READY and the participant list\<close>

lemma wellFormed_InitProcess: "wellFormed (InitProcess self actors)"
  by (auto simp: wellFormed_def InitProcess_def fold_upd_const lookupState_def
      split: if_splits option.splits)

lemma initMessageState_wellFormed:
  assumes "initMessageState p cfg rnd md = Inr (p1, ms, ev)" "wellFormed p"
  shows "wellFormed p1" "dom (receivedReady ms) = set (pids p)"
    "deliveredMessages p1 (Author md) \<noteq> None"
proof -
  from initMessageState_cases [OF assms(1)]
  have ms: "dom (receivedReady ms) = set (pids p)"
  proof (elim disjE conjE exE)
    assume "lookupState p md = Some ms"
    with assms(2) show ?thesis unfolding wellFormed_def by blast
  next
    fix inner g es rs ds
    assume "ms = newMessageState
                    \<lparr> receivedReady := fold (\<lambda>x m. m(x \<mapsto> {||})) (pids p) Map.empty,
                      gossipSample := g, echoSample := es,
                      readySample := rs, deliverySample := ds \<rparr>"
    then have "receivedReady ms = (\<lambda>k. if k \<in> set (pids p) then Some {||} else None)"
      by (simp add: fold_upd_const)
    then show ?thesis by (auto simp: dom_def)
  qed
  then show "dom (receivedReady ms) = set (pids p)" .
  have l1: "lookupState p1 md = Some ms" by (rule initMessageState_lookup [OF assms(1)])
  note fr = initMessageState_frame [OF assms(1)]
  have "dom (receivedReady ms') = set (pids p)" if "lookupState p1 k = Some ms'" for k ms'
  proof (cases "Author k = Author md \<and> SeqNumber k = SeqNumber md")
    case True
    then have "lookupState p1 k = lookupState p1 md" by (intro lookupState_key) simp_all
    with that l1 ms show ?thesis by simp
  next
    case False
    then have "lookupState p1 k = lookupState p k" by (rule initMessageState_other [OF assms(1)])
    with that assms(2) show ?thesis by (simp add: wellFormed_def)
  qed
  with assms(2) fr show "wellFormed p1" by (simp add: wellFormed_def)
  from l1 have "Author md \<in> dom (messagesLog p1)"
    by (auto simp: lookupState_def split: option.splits)
  with assms(2) fr show "deliveredMessages p1 (Author md) \<noteq> None"
    by (auto simp: wellFormed_def)
qed

lemma storeState_wellFormed:
  assumes "wellFormed p" "lookupState p md = Some ms" "dom (receivedReady ms') = set (pids p)"
  shows "wellFormed (storeState p md ms')"
proof -
  have "dom (receivedReady x) = set (pids p)" if "lookupState (storeState p md ms') k = Some x"
    for k x
    using that assms by (auto simp: lookupState_storeState wellFormed_def split: if_splits)
  moreover have "dom (messagesLog (storeState p md ms')) = dom (messagesLog p)"
    using assms(2) by (auto simp: storeState_def lookupState_def split: option.splits if_splits)
  ultimately show ?thesis
    using assms(1) by (simp add: wellFormed_def storeState_frame)
qed

lemma wellFormed_msgCounter [simp]: "wellFormed (p\<lparr>msgCounter := c\<rparr>) = wellFormed p"
  by (simp add: wellFormed_def)

lemma Receive_wellFormed:
  assumes step: "Receive p cfg rnd sender m = Inr (p', ev)" and wf: "wellFormed p"
  shows "wellFormed p' \<and> pids p' = pids p"
proof (cases m)
  case Other_msg
  with step wf show ?thesis by (auto simp: Receive_def)
next
  case (Protocol_msg msg)
  let ?md = "MessageData msg"
  from step Protocol_msg obtain p1 ms evA p2 ms' evB where
    init: "initMessageState p cfg rnd ?md = Inr (p1, ms, evA)" and
    st: "Receive_stage p1 cfg ms sender msg = Inr (p2, ms', evB)" and
    p': "p' = storeState p2 ?md ms'"
    by (auto dest!: Receive_Protocol_cases)
  note w1 = initMessageState_wellFormed [OF init wf]
  note f1 = initMessageState_frame [OF init]
  note f2 = Receive_stage_frame [OF st]
  have l2: "lookupState p2 = lookupState p1"
    using f2(1) by (simp add: lookupState_def fun_eq_iff)
  have w2: "wellFormed p2"
    using w1(1) f2(1,2,7) l2 by (simp add: wellFormed_def)
  have "lookupState p2 ?md = Some ms" using initMessageState_lookup [OF init] l2 by simp
  moreover have "dom (receivedReady ms') = set (pids p2)"
    using Receive_stage_cached(4) [OF st] w1(2) f1(2) f2(2) by simp
  ultimately have "wellFormed p'" unfolding p' by (rule storeState_wellFormed [OF w2])
  then show ?thesis by (simp add: p' storeState_frame f1 f2)
next
  case (Broadcast_msg v)
  let ?md = "\<lparr>Author = pid p, SeqNumber = msgCounter p, Value = v\<rparr>"
  from step Broadcast_msg have "Broadcast p cfg rnd v = Inr (p', ev)" by (simp add: Receive_def)
  from Broadcast_cases [OF this] obtain p1 ms evA where
    init: "initMessageState p cfg rnd ?md = Inr (p1, ms, evA)" and
    p': "p' = (storeState p1 ?md (ms\<lparr>gossipMessage := Some \<lparr>Stage = GOSSIP, MessageData = ?md\<rparr>\<rparr>))
                \<lparr>msgCounter := msgCounter p + 1\<rparr>"
    by (elim exE conjE)
  note w1 = initMessageState_wellFormed [OF init wf]
  note f1 = initMessageState_frame [OF init]
  have "wellFormed (storeState p1 ?md (ms\<lparr>gossipMessage := Some \<lparr>Stage = GOSSIP, MessageData = ?md\<rparr>\<rparr>))"
    by (rule storeState_wellFormed [OF w1(1) initMessageState_lookup [OF init]])
      (simp add: w1(2) f1(2))
  then show ?thesis by (simp add: p' storeState_frame f1)
qed

lemma run_wellFormed:
  "run p cfg ins = Inr (p', ev) \<Longrightarrow> wellFormed p \<Longrightarrow> wellFormed p' \<and> pids p' = pids p"
proof (induction ins arbitrary: p ev)
  case Nil
  then show ?case by simp
next
  case (Cons i ins)
  obtain rnd sender m where i: "i = (rnd, sender, m)" by (cases i)
  from Cons.prems(1) i obtain p1 ev1 ev2 where
    s1: "Receive p cfg rnd sender m = Inr (p1, ev1)" and s2: "run p1 cfg ins = Inr (p', ev2)"
    by (auto split: sum.splits prod.splits)
  from Receive_wellFormed [OF s1 Cons.prems(2)] Cons.IH [OF s2] show ?case by simp
qed

lemma Receive_READY_amplify_total:
  "\<exists>ms2 ev1. Receive_READY_amplify p cfg ms sender md = (ms2, ev1)"
  by (cases "Receive_READY_amplify p cfg ms sender md") blast

lemma Receive_READY_deliver_total:
  assumes "deliveredMessages p (Author md) \<noteq> None"
  shows "\<exists>p' ms' ev. Receive_READY_deliver p cfg ms sender md = Inr (p', ms', ev)"
  using assms
  by (auto simp: Receive_READY_deliver_def deliver_def Let_def split: prod.splits option.splits)

lemma Receive_READY_total_iff:
  assumes "deliveredMessages p (Author md) \<noteq> None"
  shows "(\<exists>p' ms' ev. Receive_READY p cfg ms sender md = Inr (p', ms', ev)) \<longleftrightarrow>
         sender \<in> dom (receivedReady ms)"
    "Receive_READY p cfg ms sender md = Inl NilMapWrite \<longleftrightarrow> sender \<notin> dom (receivedReady ms)"
proof -
  have known: "\<exists>p' ms' ev. Receive_READY p cfg ms sender md = Inr (p', ms', ev)"
    if "receivedReady ms sender = Some vs" for vs
  proof (cases "Value md |\<in>| vs")
    case True
    with that show ?thesis by (simp add: Receive_READY_def)
  next
    case False
    obtain ms2 ev1 where a: "Receive_READY_amplify p cfg
        (ms\<lparr>receivedReady := (receivedReady ms)(sender \<mapsto> finsert (Value md) vs)\<rparr>) sender md
        = (ms2, ev1)"
      using Receive_READY_amplify_total by blast
    from Receive_READY_deliver_total [OF assms] obtain p' ms' ev where
      "Receive_READY_deliver p cfg ms2 sender md = Inr (p', ms', ev)" by blast
    with that False a show ?thesis by (simp add: Receive_READY_def Let_def)
  qed
  have unknown: "Receive_READY p cfg ms sender md = Inl NilMapWrite"
    if "receivedReady ms sender = None"
    using that by (simp add: Receive_READY_def)
  show "(\<exists>p' ms' ev. Receive_READY p cfg ms sender md = Inr (p', ms', ev)) \<longleftrightarrow>
         sender \<in> dom (receivedReady ms)"
    using known unknown by (cases "receivedReady ms sender") auto
  show "Receive_READY p cfg ms sender md = Inl NilMapWrite \<longleftrightarrow> sender \<notin> dom (receivedReady ms)"
    using known unknown by (cases "receivedReady ms sender") auto
qed

text \<open>
  Claim C9. \<open>initMessageState\<close> gives a new per-broadcast state an empty inner map
  \<open>receivedReady[p]\<close> for exactly the PIDs of the participant list. In every state the
  engine reaches from \<open>InitProcess\<close>, once \<open>initMessageState\<close> has returned the state of
  the key: for a sender outside the list the READY case writes to a nil inner map, and it
  and \<open>Receive\<close> end in that panic; for a sender of the list the READY case returns, and
  so does \<open>Receive\<close>: no panic is possible there.
\<close>

theorem ready_defined_for_participants:
  "(lookupState p md = None \<longrightarrow> initMessageState p cfg rnd md = Inr (p1, ms, ev1) \<longrightarrow>
      receivedReady ms = (\<lambda>x. if x \<in> set (pids p) then Some {||} else None)) \<and>
   (run (InitProcess self actors) cfg ins = Inr (p, ev0) \<longrightarrow>
    initMessageState p cfg rnd md = Inr (p1, ms, ev1) \<longrightarrow>
      (sender \<notin> set actors \<longrightarrow>
         Receive_READY p1 cfg ms sender md = Inl NilMapWrite \<and>
         Receive p cfg rnd sender (Protocol_msg \<lparr>Stage = READY, MessageData = md\<rparr>)
           = Inl NilMapWrite) \<and>
      (sender \<in> set actors \<longrightarrow>
         (\<exists>p2 ms' ev2. Receive_READY p1 cfg ms sender md = Inr (p2, ms', ev2)) \<and>
         (\<exists>p' ev. Receive p cfg rnd sender (Protocol_msg \<lparr>Stage = READY, MessageData = md\<rparr>)
                    = Inr (p', ev))))"
proof (intro conjI impI)
  assume "lookupState p md = None" "initMessageState p cfg rnd md = Inr (p1, ms, ev1)"
  then show "receivedReady ms = (\<lambda>x. if x \<in> set (pids p) then Some {||} else None)"
    by (simp add: initMessageState_fresh(6))
next
  assume r: "run (InitProcess self actors) cfg ins = Inr (p, ev0)"
    and init: "initMessageState p cfg rnd md = Inr (p1, ms, ev1)"
  from run_wellFormed [OF r wellFormed_InitProcess]
  have wf: "wellFormed p" and ps: "pids p = actors" by (simp_all add: InitProcess_def)
  note w = initMessageState_wellFormed [OF init wf]
  have d: "dom (receivedReady ms) = set actors" using w(2) ps by simp
  note t = Receive_READY_total_iff [OF w(3), of cfg ms sender]
  have R: "Receive p cfg rnd sender (Protocol_msg \<lparr>Stage = READY, MessageData = md\<rparr>) =
             (case Receive_READY p1 cfg ms sender md of
                Inl e \<Rightarrow> Inl e
              | Inr (p2, ms', ev) \<Rightarrow> Inr (storeState p2 md ms', ev1 @ ev))"
    by (simp add: Receive_def init Receive_stage_def split: sum.splits)
  {
    assume "sender \<notin> set actors"
    with t(2) d show u: "Receive_READY p1 cfg ms sender md = Inl NilMapWrite" by simp
    show "Receive p cfg rnd sender (Protocol_msg \<lparr>Stage = READY, MessageData = md\<rparr>)
           = Inl NilMapWrite"
      by (simp add: R u)
  }
  {
    assume "sender \<in> set actors"
    with t(1) d show k: "\<exists>p2 ms' ev2. Receive_READY p1 cfg ms sender md = Inr (p2, ms', ev2)"
      by simp
    then show "\<exists>p' ev. Receive p cfg rnd sender
                 (Protocol_msg \<lparr>Stage = READY, MessageData = md\<rparr>) = Inr (p', ev)"
      by (auto simp: R)
  }
qed

theorem ready_defined_for_participants_witness:
  "receivedReady (fst (snd (projr (initMessageState pEx cfgEx rndEx (mdEx 1)))))
     = (\<lambda>x. if x \<in> set (pids pEx) then Some {||} else None) \<and>
   Receive (fst (projr (run (InitProcess ''a'' [''a'', ''b'', ''c'']) cfgEx
                          [(rndEx, ''c'', Protocol_msg (msgEx READY_SUBSCRIBE 1))])))
     cfgEx rndEx ''z'' (Protocol_msg \<lparr>Stage = READY, MessageData = mdEx 1\<rparr>)
     = Inl NilMapWrite \<and>
   (\<exists>p' ev.
      Receive (fst (projr (run (InitProcess ''a'' [''a'', ''b'', ''c'']) cfgEx
                             [(rndEx, ''c'', Protocol_msg (msgEx READY_SUBSCRIBE 1))])))
        cfgEx rndEx ''b'' (Protocol_msg \<lparr>Stage = READY, MessageData = mdEx 1\<rparr>)
        = Inr (p', ev))"
proof (intro conjI)
  let ?X = "initMessageState pEx cfgEx rndEx (mdEx 1)"
  have "case ?X of Inl e \<Rightarrow> False | Inr y \<Rightarrow> True" by code_simp
  then have x: "?X = Inr (fst (projr ?X), fst (snd (projr ?X)), snd (snd (projr ?X)))"
    by (rule Inr_collapse3)
  have "case lookupState pEx (mdEx 1) of None \<Rightarrow> True | Some ms \<Rightarrow> False" by code_simp
  then have n: "lookupState pEx (mdEx 1) = None" by (auto split: option.splits)
  from ready_defined_for_participants [where p = pEx and md = "mdEx 1" and cfg = cfgEx
      and rnd = rndEx and ?p1.0 = "fst (projr ?X)" and ms = "fst (snd (projr ?X))"
      and ?ev1.0 = "snd (snd (projr ?X))"] x n
  show "receivedReady (fst (snd (projr ?X)))
          = (\<lambda>x. if x \<in> set (pids pEx) then Some {||} else None)"
    by blast
next
  let ?S = "run (InitProcess ''a'' [''a'', ''b'', ''c'']) cfgEx
              [(rndEx, ''c'', Protocol_msg (msgEx READY_SUBSCRIBE 1))]"
  let ?p = "fst (projr ?S)"
  let ?X = "initMessageState ?p cfgEx rndEx (mdEx 1)"
  have "case ?S of Inl e \<Rightarrow> False | Inr y \<Rightarrow> True" by code_simp
  then have s: "?S = Inr (?p, snd (projr ?S))" by (rule Inr_collapse)
  have "case ?X of Inl e \<Rightarrow> False | Inr y \<Rightarrow> True" by code_simp
  then have x: "?X = Inr (fst (projr ?X), fst (snd (projr ?X)), snd (snd (projr ?X)))"
    by (rule Inr_collapse3)
  have z: "''z'' \<notin> set [''a'', ''b'', ''c'']" "''b'' \<in> set [''a'', ''b'', ''c'']" by simp_all
  note th = ready_defined_for_participants [where self = "''a''" and actors = "[''a'', ''b'', ''c'']"
      and cfg = cfgEx and p = ?p and ?ev0.0 = "snd (projr ?S)" and rnd = rndEx and md = "mdEx 1"
      and ?p1.0 = "fst (projr ?X)" and ms = "fst (snd (projr ?X))"
      and ?ev1.0 = "snd (snd (projr ?X))"]
  from th [where sender = "''z''"] s x z(1)
  show "Receive ?p cfgEx rndEx ''z'' (Protocol_msg \<lparr>Stage = READY, MessageData = mdEx 1\<rparr>)
          = Inl NilMapWrite"
    by blast
  from th [where sender = "''b''"] s x z(2)
  show "\<exists>p' ev. Receive ?p cfgEx rndEx ''b''
          (Protocol_msg \<lparr>Stage = READY, MessageData = mdEx 1\<rparr>) = Inr (p', ev)"
    by blast
qed

subsection \<open>ECHO\<close>









subsection \<open>READY_SUBSCRIBE\<close>

lemma broadcastToSet_no_ready:
  "Stage m \<noteq> READY \<Longrightarrow> filter isReadyRequest (broadcastToSet p S m) = []"
  by (simp add: broadcastToSet_def isReadyRequest_def filter_empty_conv)

lemma sample_no_ready:
  "sample p cfg stg md n rs = Inr (S, ev) \<Longrightarrow> stg \<noteq> READY \<Longrightarrow> filter isReadyRequest ev = []"
  by (auto simp: sample_def broadcastToSet_no_ready split: sum.splits)

lemma initMessageState_no_ready:
  assumes "initMessageState p cfg rnd md = Inr (p1, ms, ev)"
  shows "filter isReadyRequest ev = []"
  using assms
  by (auto simp: initMessageState_def Let_def broadcastToSet_no_ready
      split: option.splits sum.splits prod.splits dest!: sample_no_ready)

lemma count_list_map_inj:
  assumes "inj f"
  shows "count_list (map f xs) (f x) = count_list xs x"
  using assms by (induction xs) (auto simp: inj_def)

lemma count_list_distinct: "distinct xs \<Longrightarrow> count_list xs x = (if x \<in> set xs then 1 else 0)"
  by (induction xs) auto

lemma distinct_sorted_list_of_fset: "distinct (sorted_list_of_fset S)"
  by (simp add: sorted_list_of_fset.rep_eq)

lemma count_list_filter_true: "P x \<Longrightarrow> count_list (filter P xs) x = count_list xs x"
  by (induction xs) auto

text \<open>
  Claim C8. When the sender is already in \<open>readySubscriptionSet\<close>, a READY_SUBSCRIBE
  changes nothing and sends nothing. Otherwise, with the state \<open>initMessageState\<close> returns
  for the key, \<open>Receive\<close> adds the sender to \<open>readySubscriptionSet\<close>, changes nothing else,
  and the requests with a READY that it makes are, for the values \<open>v\<close> of
  \<open>readyMessagesSent\<close>, one request each to the sender, carrying the author and the
  sequence number of the incoming message and the value \<open>v\<close>, with the engine's own handle
  as the sender: exactly one for each value of \<open>readyMessagesSent\<close>, none for another value.
\<close>

theorem ready_subscribe_replays:
  "(lookupState p md = Some ms \<longrightarrow> sender |\<in>| readySubscriptionSet ms \<longrightarrow>
      Receive p cfg rnd sender (Protocol_msg \<lparr>Stage = READY_SUBSCRIBE, MessageData = md\<rparr>)
        = Inr (p, [])) \<and>
   (initMessageState p cfg rnd md = Inr (p1, ms, ev0) \<longrightarrow>
    sender |\<notin>| readySubscriptionSet ms \<longrightarrow>
      (\<exists>ev.
         Receive p cfg rnd sender (Protocol_msg \<lparr>Stage = READY_SUBSCRIBE, MessageData = md\<rparr>)
           = Inr (storeState p1 md
                    (ms\<lparr>readySubscriptionSet := finsert sender (readySubscriptionSet ms)\<rparr>),
                  ev) \<and>
         filter isReadyRequest ev =
           map (\<lambda>v. Request (Some sender)
                      \<lparr>Stage = READY,
                       MessageData = \<lparr>Author = Author md, SeqNumber = SeqNumber md, Value = v\<rparr>\<rparr>
                      (actorPid p))
               (sorted_list_of_fset (readyMessagesSent ms)) \<and>
         (\<forall>v. count_list ev
                 (Request (Some sender)
                    \<lparr>Stage = READY,
                     MessageData = \<lparr>Author = Author md, SeqNumber = SeqNumber md, Value = v\<rparr>\<rparr>
                    (actorPid p))
               = (if v |\<in>| readyMessagesSent ms then 1 else 0))))"
proof (intro conjI impI)
  assume "lookupState p md = Some ms" "sender |\<in>| readySubscriptionSet ms"
  then show "Receive p cfg rnd sender
      (Protocol_msg \<lparr>Stage = READY_SUBSCRIBE, MessageData = md\<rparr>) = Inr (p, [])"
    by (simp add: Receive_def initMessageState_existing Receive_stage_def
        Receive_READY_SUBSCRIBE_def storeState_same)
next
  assume init: "initMessageState p cfg rnd md = Inr (p1, ms, ev0)"
    and new: "sender |\<notin>| readySubscriptionSet ms"
  let ?f = "\<lambda>v. Request (Some sender)
                      \<lparr>Stage = READY,
                       MessageData = \<lparr>Author = Author md, SeqNumber = SeqNumber md, Value = v\<rparr>\<rparr>
                      (actorPid p)"
  let ?vs = "sorted_list_of_fset (readyMessagesSent ms)"
  let ?ev = "ev0 @ map ?f ?vs"
  have a: "actorPid p1 = actorPid p" by (rule initMessageState_frame(4) [OF init])
  have R: "Receive p cfg rnd sender (Protocol_msg \<lparr>Stage = READY_SUBSCRIBE, MessageData = md\<rparr>)
           = Inr (storeState p1 md
                    (ms\<lparr>readySubscriptionSet := finsert sender (readySubscriptionSet ms)\<rparr>),
                  ?ev)"
    using new by (simp add: Receive_def init Receive_stage_def Receive_READY_SUBSCRIBE_def a)
  have e0: "filter isReadyRequest ev0 = []" by (rule initMessageState_no_ready [OF init])
  have all: "filter isReadyRequest (map ?f ?vs) = map ?f ?vs"
    by (simp add: isReadyRequest_def)
  have F: "filter isReadyRequest ?ev = map ?f ?vs" by (simp add: e0 all)
  have inj: "inj ?f" by (simp add: inj_def)
  have C: "count_list ?ev (?f v) = (if v |\<in>| readyMessagesSent ms then 1 else 0)" for v
  proof -
    have "isReadyRequest (?f v)" by (simp add: isReadyRequest_def)
    then have "count_list ?ev (?f v) = count_list (filter isReadyRequest ?ev) (?f v)"
      by (simp only: count_list_filter_true)
    also have "\<dots> = count_list ?vs v"
      unfolding F by (rule count_list_map_inj [OF inj])
    also have "\<dots> = (if v |\<in>| readyMessagesSent ms then 1 else 0)"
      by (simp add: count_list_distinct distinct_sorted_list_of_fset)
    finally show ?thesis .
  qed
  from R F C show "\<exists>ev.
         Receive p cfg rnd sender (Protocol_msg \<lparr>Stage = READY_SUBSCRIBE, MessageData = md\<rparr>)
           = Inr (storeState p1 md
                    (ms\<lparr>readySubscriptionSet := finsert sender (readySubscriptionSet ms)\<rparr>),
                  ev) \<and>
         filter isReadyRequest ev = map ?f ?vs \<and>
         (\<forall>v. count_list ev (?f v) = (if v |\<in>| readyMessagesSent ms then 1 else 0))"
    by blast
qed

theorem ready_subscribe_replays_witness:
  "Receive (after [(rndEx, ''b'', Protocol_msg (msgEx READY 5)),
                   (rndEx, ''c'', Protocol_msg (msgEx READY_SUBSCRIBE 1))]) cfgEx rndEx ''c''
     (Protocol_msg \<lparr>Stage = READY_SUBSCRIBE, MessageData = mdEx 1\<rparr>)
     = Inr (after [(rndEx, ''b'', Protocol_msg (msgEx READY 5)),
                   (rndEx, ''c'', Protocol_msg (msgEx READY_SUBSCRIBE 1))], []) \<and>
   (\<exists>ev.
      Receive (after [(rndEx, ''b'', Protocol_msg (msgEx READY 5)),
                      (rndEx, ''c'', Protocol_msg (msgEx READY 3))]) cfgEx rndEx ''c''
        (Protocol_msg \<lparr>Stage = READY_SUBSCRIBE, MessageData = mdEx 1\<rparr>)
        = Inr (storeState
                 (after [(rndEx, ''b'', Protocol_msg (msgEx READY 5)),
                         (rndEx, ''c'', Protocol_msg (msgEx READY 3))])
                 (mdEx 1)
                 ((the (lookupState (after [(rndEx, ''b'', Protocol_msg (msgEx READY 5)),
                                            (rndEx, ''c'', Protocol_msg (msgEx READY 3))])
                          (mdEx 1)))
                    \<lparr>readySubscriptionSet := finsert ''c''
                       (readySubscriptionSet
                          (the (lookupState (after [(rndEx, ''b'', Protocol_msg (msgEx READY 5)),
                                                    (rndEx, ''c'', Protocol_msg (msgEx READY 3))])
                                  (mdEx 1))))\<rparr>),
               ev) \<and>
      count_list ev (Request (Some ''c'') (msgEx READY 5) ''a'') = 1 \<and>
      count_list ev (Request (Some ''c'') (msgEx READY 3) ''a'') = 1 \<and>
      count_list ev (Request (Some ''c'') (msgEx READY 1) ''a'') = 0)"
proof (intro conjI)
  let ?M = "Protocol_msg \<lparr>Stage = READY_SUBSCRIBE, MessageData = mdEx 1\<rparr>"
  let ?q = "after [(rndEx, ''b'', Protocol_msg (msgEx READY 5)),
                   (rndEx, ''c'', Protocol_msg (msgEx READY_SUBSCRIBE 1))]"
  have "case lookupState ?q (mdEx 1) of
          None \<Rightarrow> False | Some ms \<Rightarrow> ''c'' |\<in>| readySubscriptionSet ms"
    by code_simp
  then have h: "lookupState ?q (mdEx 1) = Some (the (lookupState ?q (mdEx 1)))"
    "''c'' |\<in>| readySubscriptionSet (the (lookupState ?q (mdEx 1)))"
    by (auto split: option.splits)
  from ready_subscribe_replays [where p = ?q and md = "mdEx 1" and sender = "''c''"
      and ms = "the (lookupState ?q (mdEx 1))" and cfg = cfgEx and rnd = rndEx] h
  show "Receive ?q cfgEx rndEx ''c'' ?M = Inr (?q, [])" by blast
next
  let ?M = "Protocol_msg \<lparr>Stage = READY_SUBSCRIBE, MessageData = mdEx 1\<rparr>"
  let ?p = "after [(rndEx, ''b'', Protocol_msg (msgEx READY 5)),
                   (rndEx, ''c'', Protocol_msg (msgEx READY 3))]"
  let ?ms = "the (lookupState ?p (mdEx 1))"
  have "case lookupState ?p (mdEx 1) of
          None \<Rightarrow> False
        | Some ms \<Rightarrow> ''c'' |\<notin>| readySubscriptionSet ms \<and>
            5 |\<in>| readyMessagesSent ms \<and> 3 |\<in>| readyMessagesSent ms \<and>
            1 |\<notin>| readyMessagesSent ms"
    by code_simp
  then have h: "lookupState ?p (mdEx 1) = Some ?ms" "''c'' |\<notin>| readySubscriptionSet ?ms"
    "5 |\<in>| readyMessagesSent ?ms" "3 |\<in>| readyMessagesSent ?ms"
    "1 |\<notin>| readyMessagesSent ?ms"
    by (auto split: option.splits)
  have i: "initMessageState ?p cfgEx rndEx (mdEx 1) = Inr (?p, ?ms, [])"
    by (rule initMessageState_existing [OF h(1)])
  have a: "actorPid ?p = ''a''" by code_simp
  have m: "\<lparr>Stage = READY,
            MessageData = \<lparr>Author = Author (mdEx 1), SeqNumber = SeqNumber (mdEx 1), Value = v\<rparr>\<rparr>
           = msgEx READY v" for v
    by (simp add: msgEx_def mdEx_def)
  from ready_subscribe_replays [where p = ?p and md = "mdEx 1" and sender = "''c''"
      and ms = ?ms and cfg = cfgEx and rnd = rndEx and ?p1.0 = ?p and ?ev0.0 = "[]"] i h(2)
  obtain ev where
    "Receive ?p cfgEx rndEx ''c'' ?M
      = Inr (storeState ?p (mdEx 1)
               (?ms\<lparr>readySubscriptionSet := finsert ''c'' (readySubscriptionSet ?ms)\<rparr>), ev)"
    "\<forall>v. count_list ev (Request (Some ''c'') (msgEx READY v) ''a'')
           = (if v |\<in>| readyMessagesSent ?ms then 1 else 0)"
    unfolding a m by blast
  with h(3,4,5) show "\<exists>ev.
      Receive ?p cfgEx rndEx ''c'' ?M
        = Inr (storeState ?p (mdEx 1)
                 (?ms\<lparr>readySubscriptionSet := finsert ''c'' (readySubscriptionSet ?ms)\<rparr>), ev) \<and>
      count_list ev (Request (Some ''c'') (msgEx READY 5) ''a'') = 1 \<and>
      count_list ev (Request (Some ''c'') (msgEx READY 3) ''a'') = 1 \<and>
      count_list ev (Request (Some ''c'') (msgEx READY 1) ''a'') = 0"
    by auto
qed

subsection \<open>READY\<close>

lemma Receive_READY_amplify_eq:
  "Receive_READY_amplify p cfg ms sender md =
     (if sender |\<in>| readySample ms
      then (if ReadyThreshold cfg \<le> sint (readySampleStat ms (Value md) + 1)
            then (ms\<lparr>readySampleStat :=
                        (readySampleStat ms)(Value md := readySampleStat ms (Value md) + 1),
                      readyMessagesSent := finsert (Value md) (readyMessagesSent ms)\<rparr>,
                  broadcastToSet p (readySubscriptionSet ms) \<lparr>Stage = READY, MessageData = md\<rparr>)
            else (ms\<lparr>readySampleStat :=
                        (readySampleStat ms)(Value md := readySampleStat ms (Value md) + 1)\<rparr>, []))
      else (ms, []))"
  by (simp add: Receive_READY_amplify_def broadcastReady_def Let_def)

lemma Receive_READY_deliver_no_request:
  "Receive_READY_deliver p cfg ms sender md = Inr (p', ms', ev) \<Longrightarrow> filter isRequest ev = []"
  by (auto simp: Receive_READY_deliver_def delivered_def deliver_def isRequest_def Let_def
      split: if_splits option.splits prod.splits sum.splits)

lemma filter_isRequest_broadcast: "filter isRequest (broadcastToSet p S m) = broadcastToSet p S m"
  by (simp add: broadcastToSet_def isRequest_def)

lemma Receive_READY_requests:
  assumes "Receive_READY p cfg ms sender md = Inr (p', ms', ev)"
  shows "filter isRequest ev =
           (if (\<exists>vs. receivedReady ms sender = Some vs \<and> Value md |\<notin>| vs) \<and>
               sender |\<in>| readySample ms \<and>
               ReadyThreshold cfg \<le> sint (readySampleStat ms (Value md) + 1)
            then broadcastToSet p (readySubscriptionSet ms) \<lparr>Stage = READY, MessageData = md\<rparr>
            else [])"
proof (cases "receivedReady ms sender")
  case None
  with assms show ?thesis by (simp add: Receive_READY_def)
next
  case (Some vs)
  show ?thesis
  proof (cases "Value md |\<in>| vs")
    case True
    with assms Some show ?thesis by (simp add: Receive_READY_def)
  next
    case False
    let ?ms1 = "ms\<lparr>receivedReady := (receivedReady ms)(sender \<mapsto> finsert (Value md) vs)\<rparr>"
    obtain ms2 ev1 where a: "Receive_READY_amplify p cfg ?ms1 sender md = (ms2, ev1)"
      by (cases "Receive_READY_amplify p cfg ?ms1 sender md")
    with assms Some False obtain ev2 where
      d: "Receive_READY_deliver p cfg ms2 sender md = Inr (p', ms', ev2)" and ev: "ev = ev1 @ ev2"
      by (auto simp: Receive_READY_def Let_def split: sum.splits)
    have "filter isRequest ev = filter isRequest ev1"
      by (simp add: ev Receive_READY_deliver_no_request [OF d])
    also have "\<dots> = (if sender |\<in>| readySample ms \<and>
                         ReadyThreshold cfg \<le> sint (readySampleStat ms (Value md) + 1)
                      then broadcastToSet p (readySubscriptionSet ms)
                             \<lparr>Stage = READY, MessageData = md\<rparr>
                      else [])"
      using a by (auto simp: Receive_READY_amplify_eq filter_isRequest_broadcast split: if_splits)
    finally show ?thesis using Some False by simp
  qed
qed

lemma Receive_READY_marks:
  assumes "Receive_READY p cfg ms sender md = Inr (p', ms', ev)"
  shows "\<exists>vs. receivedReady ms' sender = Some vs \<and> Value md |\<in>| vs"
  using assms
  by (auto simp: Receive_READY_def Receive_READY_amplify_def Receive_READY_deliver_def Let_def
      split: option.splits if_splits prod.splits sum.splits)

lemma Receive_READY_repeated:
  assumes "lookupState p md = Some ms" "receivedReady ms sender = Some vs" "Value md |\<in>| vs"
  shows "Receive p cfg rnd sender (Protocol_msg \<lparr>Stage = READY, MessageData = md\<rparr>) = Inr (p, [])"
  using assms
  by (simp add: Receive_def initMessageState_existing Receive_stage_def Receive_READY_def
      storeState_same)

lemma Receive_READY_then_marked:
  assumes "Receive p cfg rnd sender (Protocol_msg \<lparr>Stage = READY, MessageData = md\<rparr>) = Inr (p1, ev)"
  shows "\<exists>ms1 vs. lookupState p1 md = Some ms1 \<and> receivedReady ms1 sender = Some vs \<and>
           Value md |\<in>| vs"
proof -
  from Receive_Protocol_cases [OF assms] obtain p0 ms ev0 p2 ms' ev1 where
    init: "initMessageState p cfg rnd md = Inr (p0, ms, ev0)" and
    st: "Receive_stage p0 cfg ms sender \<lparr>Stage = READY, MessageData = md\<rparr> = Inr (p2, ms', ev1)" and
    p1: "p1 = storeState p2 md ms'"
    by auto
  have "lookupState p2 md = Some ms"
    using initMessageState_lookup [OF init] Receive_stage_frame(1) [OF st]
    by (simp add: lookupState_def)
  then have "lookupState p1 md = Some ms'"
    by (simp add: p1 lookupState_storeState)
  moreover from st have "Receive_READY p0 cfg ms sender md = Inr (p2, ms', ev1)"
    by (simp add: Receive_stage_def)
  from Receive_READY_marks [OF this] obtain vs where
    "receivedReady ms' sender = Some vs" "Value md |\<in>| vs" by blast
  ultimately show ?thesis by blast
qed

lemma Receive_stage_ready_marked:
  assumes "Receive_stage p cfg ms sender' msg = Inr (p', ms', ev)"
    "\<exists>vs. receivedReady ms sender = Some vs \<and> v |\<in>| vs"
  shows "\<exists>vs. receivedReady ms' sender = Some vs \<and> v |\<in>| vs"
  using assms
  by (auto simp: Receive_stage_def stage_defs Let_def
      split: stage.splits prod.splits if_splits option.splits sum.splits)

lemma run_ready_marked:
  assumes "run p cfg ins = Inr (p', ev)" "lookupState p k = Some ms0"
    "\<exists>vs. receivedReady ms0 sender = Some vs \<and> v |\<in>| vs"
  shows "\<exists>ms1. lookupState p' k = Some ms1 \<and>
           (\<exists>vs. receivedReady ms1 sender = Some vs \<and> v |\<in>| vs)"
proof (rule run_keeps [where P = "\<lambda>ms. \<exists>vs. receivedReady ms sender = Some vs \<and> v |\<in>| vs",
      OF _ _ assms])
  fix p ms sender' msg p2 ms' ev
  assume "Receive_stage p cfg ms sender' msg = Inr (p2, ms', ev)"
    "\<exists>vs. receivedReady ms sender = Some vs \<and> v |\<in>| vs"
  then show "\<exists>vs. receivedReady ms' sender = Some vs \<and> v |\<in>| vs"
    by (rule Receive_stage_ready_marked)
next
  fix ms :: messageState and g
  assume "\<exists>vs. receivedReady ms sender = Some vs \<and> v |\<in>| vs"
  then show "\<exists>vs. receivedReady (ms\<lparr>gossipMessage := Some g\<rparr>) sender = Some vs \<and> v |\<in>| vs"
    by simp
qed

text \<open>
  What the READY case does. For a READY that is counted, the requests made are the
  amplification broadcast of READY(value) to \<open>readySubscriptionSet\<close>, and they are made
  exactly when the sender is in \<open>readySample\<close> and \<open>readySampleStat[value]\<close>, after its
  increment, has reached \<open>ReadyThreshold\<close>; \<open>readyMessagesSent\<close> is written and never read
  there. A sender triggers the broadcast at most once for a key and a value: once its
  READY has been received, the same READY of the same sender, received again at once or
  after any run of the engine, changes nothing and sends nothing.
\<close>

lemma amplification_condition:
  "(Receive_READY p cfg ms sender md = Inr (p', ms', ev) \<longrightarrow>
      filter isRequest ev =
        (if (\<exists>vs. receivedReady ms sender = Some vs \<and> Value md |\<notin>| vs) \<and>
            sender |\<in>| readySample ms \<and>
            ReadyThreshold cfg \<le> sint (readySampleStat ms (Value md) + 1)
         then broadcastToSet p (readySubscriptionSet ms) \<lparr>Stage = READY, MessageData = md\<rparr>
         else [])) \<and>
   (Receive p cfg rnd sender (Protocol_msg \<lparr>Stage = READY, MessageData = md\<rparr>) = Inr (p1, ev1) \<longrightarrow>
      run p1 cfg ins = Inr (p2, ev2) \<longrightarrow>
      Receive p2 cfg rnd' sender (Protocol_msg \<lparr>Stage = READY, MessageData = md\<rparr>) = Inr (p2, []))"
proof (intro conjI impI)
  assume "Receive_READY p cfg ms sender md = Inr (p', ms', ev)"
  then show "filter isRequest ev =
        (if (\<exists>vs. receivedReady ms sender = Some vs \<and> Value md |\<notin>| vs) \<and>
            sender |\<in>| readySample ms \<and>
            ReadyThreshold cfg \<le> sint (readySampleStat ms (Value md) + 1)
         then broadcastToSet p (readySubscriptionSet ms) \<lparr>Stage = READY, MessageData = md\<rparr>
         else [])"
    by (rule Receive_READY_requests)
next
  assume a: "Receive p cfg rnd sender (Protocol_msg \<lparr>Stage = READY, MessageData = md\<rparr>) = Inr (p1, ev1)"
    "run p1 cfg ins = Inr (p2, ev2)"
  from Receive_READY_then_marked [OF a(1)] obtain ms1 where
    l: "lookupState p1 md = Some ms1" and
    m: "\<exists>vs. receivedReady ms1 sender = Some vs \<and> Value md |\<in>| vs"
    by blast
  from run_ready_marked [OF a(2) l m] obtain ms2 vs where
    "lookupState p2 md = Some ms2" "receivedReady ms2 sender = Some vs" "Value md |\<in>| vs"
    by blast
  then show "Receive p2 cfg rnd' sender (Protocol_msg \<lparr>Stage = READY, MessageData = md\<rparr>) = Inr (p2, [])"
    by (rule Receive_READY_repeated)
qed

text \<open>
  Claim C1 fails on the code. The claim has the amplification broadcast made only when the
  value is not yet in \<open>readyMessagesSent\<close>, hence at most once for a key and a value; the
  READY case marks the value and broadcasts whenever the threshold is reached, without
  looking at the mark, where the Sieve path, which does the same marking and broadcast,
  is guarded by \<open>sentReadyFromSieve\<close>. Here \<open>c\<close> has subscribed and \<open>ReadyThreshold\<close> is 1.
  The READY with value 1 from \<open>b\<close> is amplified to \<open>c\<close> and puts 1 in \<open>readyMessagesSent\<close>;
  the READY with value 1 from \<open>c\<close> is amplified to \<open>c\<close> again: the run sends READY with
  value 1 to \<open>c\<close> twice.
\<close>

theorem amplification_repeats:
  "(case lookupState (after [(rndEx, ''c'', Protocol_msg (msgEx READY_SUBSCRIBE 1)),
                             (rndEx, ''b'', Protocol_msg (msgEx READY 1))]) (mdEx 1) of
      None \<Rightarrow> False
    | Some ms \<Rightarrow> 1 |\<in>| readyMessagesSent ms) \<and>
   (case Receive (after [(rndEx, ''c'', Protocol_msg (msgEx READY_SUBSCRIBE 1)),
                         (rndEx, ''b'', Protocol_msg (msgEx READY 1))]) cfgEx rndEx ''c''
           (Protocol_msg (msgEx READY 1)) of
      Inl e \<Rightarrow> False
    | Inr (p1, ev1) \<Rightarrow> ev1 = [Request (Some ''c'') (msgEx READY 1) ''a'']) \<and>
   (case run pEx cfgEx [(rndEx, ''c'', Protocol_msg (msgEx READY_SUBSCRIBE 1)),
                        (rndEx, ''b'', Protocol_msg (msgEx READY 1)),
                        (rndEx, ''c'', Protocol_msg (msgEx READY 1))] of
      Inl e \<Rightarrow> False
    | Inr (p1, ev1) \<Rightarrow> count_list ev1 (Request (Some ''c'') (msgEx READY 1) ''a'') = 2)"
  by code_simp

subsection \<open>The cached messages\<close>

lemma run_cached_kept:
  assumes "run p cfg ins = Inr (p', ev)" "lookupState p k = Some ms0" "echoMessage ms0 = Some e"
    "gossipMessage ms0 \<noteq> None"
  shows "\<exists>ms1. lookupState p' k = Some ms1 \<and> echoMessage ms1 = Some e \<and> gossipMessage ms1 \<noteq> None"
proof -
  have "\<exists>ms1. lookupState p' k = Some ms1 \<and> (echoMessage ms1 = Some e \<and> gossipMessage ms1 \<noteq> None)"
  proof (rule run_keeps [where P = "\<lambda>ms. echoMessage ms = Some e \<and> gossipMessage ms \<noteq> None",
        OF _ _ assms(1,2)])
    fix p ms sender msg p2 ms' ev
    assume "Receive_stage p cfg ms sender msg = Inr (p2, ms', ev)"
      "echoMessage ms = Some e \<and> gossipMessage ms \<noteq> None"
    then show "echoMessage ms' = Some e \<and> gossipMessage ms' \<noteq> None"
      using Receive_stage_cached(1,2) by fastforce
  next
    fix ms :: messageState and g
    assume "echoMessage ms = Some e \<and> gossipMessage ms \<noteq> None"
    then show "echoMessage (ms\<lparr>gossipMessage := Some g\<rparr>) = Some e \<and>
               gossipMessage (ms\<lparr>gossipMessage := Some g\<rparr>) \<noteq> None"
      by simp
  next
    show "echoMessage ms0 = Some e \<and> gossipMessage ms0 \<noteq> None" using assms(3,4) by simp
  qed
  then show ?thesis by simp
qed

text \<open>
  Claim C5 fails on the code for \<open>gossipMessage\<close> and a local broadcast. The engine \<open>a\<close>
  receives from \<open>b\<close> a GOSSIP for the key \<open>(a, 0)\<close> with value 1: it caches the gossip and
  the echo message with value 1. The application then asks \<open>a\<close> to broadcast value 2; the
  counter of \<open>a\<close> is 0, so the key is \<open>(a, 0)\<close> again, and \<open>Broadcast\<close> replaces the cached
  gossip message by one with value 2 and sends it, while the cached echo message keeps
  value 1.
\<close>

theorem broadcast_replaces_cached_gossip:
  "(case lookupState (after [(rndEx, ''b'', Protocol_msg \<lparr>Stage = GOSSIP, MessageData = mdOwn 1\<rparr>)])
          (mdOwn 1) of
      None \<Rightarrow> False
    | Some ms \<Rightarrow>
        gossipMessage ms = Some \<lparr>Stage = GOSSIP, MessageData = mdOwn 1\<rparr> \<and>
        echoMessage ms = Some \<lparr>Stage = ECHO, MessageData = mdOwn 1\<rparr>) \<and>
   (case Receive (after [(rndEx, ''b'', Protocol_msg \<lparr>Stage = GOSSIP, MessageData = mdOwn 1\<rparr>)])
           cfgEx rndEx ''a'' (Broadcast_msg 2) of
      Inl e \<Rightarrow> False
    | Inr (p1, ev1) \<Rightarrow>
        (case lookupState p1 (mdOwn 1) of
           None \<Rightarrow> False
         | Some ms \<Rightarrow>
             gossipMessage ms = Some \<lparr>Stage = GOSSIP, MessageData = mdOwn 2\<rparr> \<and>
             echoMessage ms = Some \<lparr>Stage = ECHO, MessageData = mdOwn 1\<rparr>) \<and>
        ev1 = [Request (Some ''b'') \<lparr>Stage = GOSSIP, MessageData = mdOwn 2\<rparr> ''a''])"
  by code_simp

end
